theory Spec2Isabelle
  imports Main "HOL-Library.Word"
begin

section \<open>Strings and character classes\<close>

text \<open>
  A JavaScript string is a sequence of UTF-16 code units.  String literals of the source are
  written \<open>js ''...''\<close>.
\<close>

type_synonym cu = "16 word"
type_synonym jstring = "cu list"

definition js :: "string \<Rightarrow> jstring" where
  "js s = map of_char s"

text \<open>
  \<open>\s\<close> of a regular expression, which is also the set that \<open>trim\<close> and \<open>trimStart\<close>
  strip: the white space and line terminator code points.
\<close>

definition is_ws :: "cu \<Rightarrow> bool" where
  "is_ws c = (c = 0x9 \<or> c = 0xA \<or> c = 0xB \<or> c = 0xC \<or> c = 0xD \<or> c = 0x20 \<or> c = 0xA0
     \<or> c = 0x1680 \<or> (0x2000 \<le> c \<and> c \<le> 0x200A) \<or> c = 0x2028 \<or> c = 0x2029
     \<or> c = 0x202F \<or> c = 0x205F \<or> c = 0x3000 \<or> c = 0xFEFF)"

text \<open>\<open>.\<close> of a regular expression (no \<open>s\<close> flag): any code unit but a line terminator.\<close>

definition is_dot :: "cu \<Rightarrow> bool" where
  "is_dot c = (c \<noteq> 0xA \<and> c \<noteq> 0xD \<and> c \<noteq> 0x2028 \<and> c \<noteq> 0x2029)"

definition is_alpha :: "cu \<Rightarrow> bool" where
  "is_alpha c = ((0x41 \<le> c \<and> c \<le> 0x5A) \<or> (0x61 \<le> c \<and> c \<le> 0x7A))"

text \<open>\<open>\d\<close>\<close>

definition is_digit :: "cu \<Rightarrow> bool" where
  "is_digit c = (0x30 \<le> c \<and> c \<le> 0x39)"

text \<open>\<open>[a-zA-Z_$]\<close>\<close>

definition is_id_start :: "cu \<Rightarrow> bool" where
  "is_id_start c = (is_alpha c \<or> c = 0x5F \<or> c = 0x24)"

text \<open>\<open>[a-zA-Z0-9_$]\<close>\<close>

definition is_id_char :: "cu \<Rightarrow> bool" where
  "is_id_char c = (is_alpha c \<or> is_digit c \<or> c = 0x5F \<or> c = 0x24)"

text \<open>\<open>[a-zA-Z0-9_$.]\<close>\<close>

definition is_id_dot :: "cu \<Rightarrow> bool" where
  "is_id_dot c = (is_id_char c \<or> c = 0x2E)"

text \<open>\<open>[^)]\<close>\<close>

definition not_rparen :: "cu \<Rightarrow> bool" where
  "not_rparen c = (c \<noteq> 0x29)"

definition trimStart :: "jstring \<Rightarrow> jstring" where
  "trimStart s = dropWhile is_ws s"

definition trim :: "jstring \<Rightarrow> jstring" where
  "trim s = rev (dropWhile is_ws (rev (dropWhile is_ws s)))"

text \<open>\<open>s.split(/\r?\n/)\<close>: a new piece starts after every \<open>\n\<close>; a \<open>\r\<close> right before it
  belongs to the separator.  The result always has at least one piece.\<close>

fun splitLines :: "jstring \<Rightarrow> jstring list" where
  "splitLines [] = [[]]"
| "splitLines (c # cs) =
     (if c = 0xD \<and> cs \<noteq> [] \<and> hd cs = 0xA then [] # splitLines (tl cs)
      else if c = 0xA then [] # splitLines cs
      else (case splitLines cs of [] \<Rightarrow> [[c]] | l # ls \<Rightarrow> (c # l) # ls))"

text \<open>\<open>xs.join('\n')\<close>\<close>

fun joinNl :: "jstring list \<Rightarrow> jstring" where
  "joinNl [] = []"
| "joinNl [l] = l"
| "joinNl (l # ls) = l @ 0xA # joinNl ls"

section \<open>Regular expressions\<close>

text \<open>
  The regular expressions of the source are kept as syntax trees and run by one backtracking
  matcher.  \<open>ms r s e\<close> lists, in the order in which a backtracking matcher tries them, every
  way \<open>r\<close> can match a prefix of \<open>s\<close>: each result is the unmatched rest of \<open>s\<close>
  with the capture groups recorded so far.  The first result is the match that JavaScript
  reports.  Alternation tries its left branch first; \<open>Star\<close> is the greedy \<open>*\<close>, which tries
  one more iteration before it tries to stop and rejects an iteration that consumes nothing;
  \<open>Eol\<close> is \<open>$\<close> without the \<open>m\<close> flag, the end of the input.
\<close>

datatype re =
    Eps
  | Cls "cu \<Rightarrow> bool"
  | Lit jstring
  | Seq re re
  | Alt re re
  | Star re
  | Grp nat re
  | Eol

type_synonym caps = "(nat \<times> jstring) list"

function ms :: "re \<Rightarrow> jstring \<Rightarrow> caps \<Rightarrow> (jstring \<times> caps) list" where
  "ms Eps s e = [(s, e)]"
| "ms (Cls P) s e = (case s of [] \<Rightarrow> [] | c # cs \<Rightarrow> if P c then [(cs, e)] else [])"
| "ms (Lit l) s e = (if take (length l) s = l then [(drop (length l) s, e)] else [])"
| "ms (Seq a b) s e = concat (map (\<lambda>p. ms b (fst p) (snd p)) (ms a s e))"
| "ms (Alt a b) s e = ms a s e @ ms b s e"
| "ms (Star r) s e =
     concat (map (\<lambda>p. if length (fst p) < length s then ms (Star r) (fst p) (snd p) else [])
                 (ms r s e)) @ [(s, e)]"
| "ms (Grp n r) s e =
     map (\<lambda>p. (fst p, (n, take (length s - length (fst p)) s) # snd p)) (ms r s e)"
| "ms Eol s e = (if s = [] then [(s, e)] else [])"
  by pat_completeness auto
termination
  by (relation "measures [\<lambda>(r, s, e). size r, \<lambda>(r, s, e). length s]") auto

declare ms.simps [simp del]

text \<open>\<open>r+\<close>, \<open>r?\<close> and a sequence of several parts.\<close>

definition Plus :: "re \<Rightarrow> re" where
  "Plus r = Seq r (Star r)"

definition Opt :: "re \<Rightarrow> re" where
  "Opt r = Alt r Eps"

fun seqs :: "re list \<Rightarrow> re" where
  "seqs [] = Eps"
| "seqs [r] = r"
| "seqs (r # rs) = Seq r (seqs rs)"

text \<open>
  \<open>s.match(r)\<close> and \<open>r.test(s)\<close> for a pattern \<open>r\<close> without the \<open>g\<close> flag that begins
  with \<open>^\<close>: the pattern can only match at index 0, so the start positions after it are
  not tried.  The result is the captures of the first match.
\<close>

definition reMatch :: "re \<Rightarrow> jstring \<Rightarrow> caps option" where
  "reMatch r s = (case ms r s [] of [] \<Rightarrow> None | p # _ \<Rightarrow> Some (snd p))"

definition reTest :: "re \<Rightarrow> jstring \<Rightarrow> bool" where
  "reTest r s = (reMatch r s \<noteq> None)"

text \<open>Capture group \<open>n\<close> of a match.\<close>

definition grp :: "caps \<Rightarrow> nat \<Rightarrow> jstring" where
  "grp e n = (case map_of e n of None \<Rightarrow> [] | Some g \<Rightarrow> g)"

text \<open>
  The first match at or after a position: \<open>search r i s\<close> tries \<open>r\<close> at the start of \<open>s\<close>,
  which is the input from index \<open>i\<close> on, then one code unit further, up to the end of the
  input.  It returns the index where the match starts, the index where it ends, and the
  captures.
\<close>

fun search :: "re \<Rightarrow> nat \<Rightarrow> jstring \<Rightarrow> (nat \<times> nat \<times> caps) option" where
  "search r i [] = (case ms r [] [] of [] \<Rightarrow> None | p # _ \<Rightarrow> Some (i, i, snd p))"
| "search r i (c # cs) =
     (case ms r (c # cs) [] of
        [] \<Rightarrow> search r (Suc i) cs
      | p # _ \<Rightarrow> Some (i, i + (length (c # cs) - length (fst p)), snd p))"

section \<open>The line patterns\<close>

text \<open>
  \<open>[a-zA-Z_$][a-zA-Z0-9_$.]*(?:\.[a-zA-Z_$][a-zA-Z0-9_$]*)*(?:Exception|Error)(?::\s*.+)?\<close>,
  the part that the exception, caused-by and suppressed patterns share.
\<close>

definition exceptionName :: re where
  "exceptionName = seqs [Cls is_id_start, Star (Cls is_id_dot),
     Star (seqs [Lit (js ''.''), Cls is_id_start, Star (Cls is_id_char)]),
     Alt (Lit (js ''Exception'')) (Lit (js ''Error'')),
     Opt (seqs [Lit (js '':''), Star (Cls is_ws), Plus (Cls is_dot)])]"

text \<open>\<open>STACK_TRACE_PATTERNS\<close>, in the order of the source; each begins with \<open>^\<close>.\<close>

definition exception_re :: re where
  "exception_re = seqs [Grp 1 (Star (Cls is_ws)),
     Grp 2 (Alt (seqs [Lit (js ''Exception in thread ''), Plus (Cls is_dot)]) exceptionName),
     Star (Cls is_ws), Eol]"

definition methodPath :: re where
  "methodPath = seqs [Cls is_id_start, Star (Cls is_id_dot), Lit (js ''.''), Cls is_id_start,
     Star (Cls is_id_char)]"

definition at_re :: re where
  "at_re = seqs [Grp 1 (Star (Cls is_ws)), Lit (js ''at''), Plus (Cls is_ws),
     Grp 2 methodPath, Lit (js ''(''), Grp 3 (Plus (Cls not_rparen)), Lit (js '')''),
     Star (Cls is_ws), Eol]"

definition causedBy_re :: re where
  "causedBy_re = seqs [Grp 1 (Star (Cls is_ws)), Lit (js ''Caused by:''), Star (Cls is_ws),
     Grp 2 exceptionName, Star (Cls is_ws), Eol]"

definition suppressed_re :: re where
  "suppressed_re = seqs [Grp 1 (Star (Cls is_ws)), Lit (js ''Suppressed:''), Star (Cls is_ws),
     Grp 2 exceptionName, Star (Cls is_ws), Eol]"

definition more_re :: re where
  "more_re = seqs [Grp 1 (Star (Cls is_ws)), Lit (js ''...''), Star (Cls is_ws),
     Plus (Cls is_digit), Star (Cls is_ws), Lit (js ''more''), Star (Cls is_ws), Eol]"

definition STACK_TRACE_PATTERNS :: "re list" where
  "STACK_TRACE_PATTERNS = [exception_re, at_re, causedBy_re, suppressed_re, more_re]"

text \<open>\<open>/^(.+):(\d+)$/\<close>, the pattern of a location with a line number.\<close>

definition location_re :: re where
  "location_re = seqs [Grp 1 (Plus (Cls is_dot)), Lit (js '':''), Grp 2 (Plus (Cls is_digit)),
     Eol]"

definition isStackTraceLine :: "jstring \<Rightarrow> bool" where
  "isStackTraceLine line =
     (if trim line = [] then False else list_ex (\<lambda>pattern. reTest pattern line) STACK_TRACE_PATTERNS)"

section \<open>Parsing\<close>

datatype lineType = T_exception | T_at | T_caused_by | T_suppressed | T_more | T_unknown

text \<open>
  The numbers that \<open>parseInt\<close> returns for a string of decimal digits: a number of the
  language is a double-precision floating point number, here one whose value is a natural
  number, or \<open>Infinity\<close>.
\<close>

datatype jsNumber = Finite nat | Infinity

record StackTraceLine =
  type :: lineType
  content :: jstring
  className :: "jstring option"
  methodName :: "jstring option"
  fileName :: "jstring option"
  lineNumber :: "jsNumber option"
  indent :: nat

record ParsedStackTrace =
  lines :: "StackTraceLine list"
  hasStackTrace :: bool
  extractedText :: jstring

text \<open>\<open>s.lastIndexOf('.')\<close>: the index of the last occurrence, \<open>-1\<close> when there is none.\<close>

fun lastIndexOf :: "cu \<Rightarrow> jstring \<Rightarrow> int" where
  "lastIndexOf c [] = - 1"
| "lastIndexOf c (x # xs) =
     (let r = lastIndexOf c xs in if r \<ge> 0 then r + 1 else if x = c then 0 else - 1)"

text \<open>The number of binary digits of a natural number.\<close>

function bitLength :: "nat \<Rightarrow> nat" where
  "bitLength n = (if n = 0 then 0 else Suc (bitLength (n div 2)))"
  by pat_completeness auto
termination
  by (relation "measure id") auto

declare bitLength.simps [simp del]

text \<open>
  The number that stands for a natural number: a double has 53 binary digits, so a value
  below \<open>2 ^ 53\<close> is kept as it is, and a greater value is rounded to the nearest multiple
  \<open>m * 2 ^ e\<close> with 53 binary digits in \<open>m\<close>, to the one with even \<open>m\<close> when two are equally
  near; a value that rounds to \<open>2 ^ 1024\<close> or more gives \<open>Infinity\<close>.
\<close>

definition roundToDouble :: "nat \<Rightarrow> jsNumber" where
  "roundToDouble v =
     (if v < 2 ^ 53 then Finite v
      else let e = bitLength v - 53;
               q = v div 2 ^ e;
               r = v mod 2 ^ e;
               m = (if 2 ^ e < 2 * r \<or> (2 * r = 2 ^ e \<and> odd q) then q + 1 else q)
           in if 2 ^ 1024 \<le> m * 2 ^ e then Infinity else Finite (m * 2 ^ e))"

text \<open>
  \<open>parseInt\<close> of a string of decimal digits: the value of the digits, as a number.  The
  language lets an implementation read the digits after the twentieth as \<open>0\<close>; the value is
  taken here as it is written, which is what the engine of the source's platform does.
\<close>

definition parseInt :: "jstring \<Rightarrow> jsNumber" where
  "parseInt ds = roundToDouble (foldl (\<lambda>n d. 10 * n + (unat d - 48)) 0 ds)"

text \<open>A line of a kind other than \<open>at\<close>: the optional fields are left out.\<close>

definition plainLine :: "lineType \<Rightarrow> jstring \<Rightarrow> nat \<Rightarrow> StackTraceLine" where
  "plainLine t line ind = \<lparr> type = t, content = line, className = None, methodName = None,
     fileName = None, lineNumber = None, indent = ind \<rparr>"

text \<open>The class and the method of a frame from the dotted path, as the source splits it.\<close>

definition splitMethod :: "jstring \<Rightarrow> jstring \<times> jstring" where
  "splitMethod fullMethod =
     (let lastDotIndex = lastIndexOf 0x2E fullMethod in
      (if lastDotIndex > 0 then take (nat lastDotIndex) fullMethod else [],
       if lastDotIndex > 0 then drop (nat lastDotIndex + 1) fullMethod else fullMethod))"

text \<open>The file name and the line number of a frame from its location.\<close>

definition splitLocation :: "jstring \<Rightarrow> jstring \<times> jsNumber option" where
  "splitLocation location =
     (case reMatch location_re location of
        Some locationMatch \<Rightarrow> (grp locationMatch 1, Some (parseInt (grp locationMatch 2)))
      | None \<Rightarrow> (location, None))"

definition parseStackTraceLine :: "jstring \<Rightarrow> StackTraceLine" where
  "parseStackTraceLine line =
     (let indentation = length line - length (trimStart line) in
      if reMatch exception_re line \<noteq> None then plainLine T_exception line indentation
      else case reMatch at_re line of
        Some atMatch \<Rightarrow>
          (let fullMethod = grp atMatch 2;
               location = grp atMatch 3
           in \<lparr> type = T_at, content = line,
                className = Some (fst (splitMethod fullMethod)),
                methodName = Some (snd (splitMethod fullMethod)),
                fileName = Some (fst (splitLocation location)),
                lineNumber = snd (splitLocation location),
                indent = indentation \<rparr>)
      | None \<Rightarrow>
          if reMatch causedBy_re line \<noteq> None then plainLine T_caused_by line indentation
          else if reMatch suppressed_re line \<noteq> None then plainLine T_suppressed line indentation
          else if reMatch more_re line \<noteq> None then plainLine T_more line indentation
          else plainLine T_unknown line indentation)"

text \<open>The loop of \<open>parseStackTrace\<close> over the lines, with the list it pushes to.  The source
  tests the parsed line before it pushes it, and a parsed line is never \<open>null\<close>.\<close>

fun parseLoop :: "jstring list \<Rightarrow> StackTraceLine list \<Rightarrow> StackTraceLine list" where
  "parseLoop [] parsedLines = parsedLines"
| "parseLoop (line # rest) parsedLines =
     (if trim line = [] then parseLoop rest parsedLines
      else parseLoop rest (parsedLines @ [parseStackTraceLine line]))"

definition parseStackTrace :: "jstring \<Rightarrow> ParsedStackTrace" where
  "parseStackTrace stackTraceText =
     (let parsedLines = parseLoop (splitLines stackTraceText) [] in
      \<lparr> lines = parsedLines,
        hasStackTrace = list_ex (\<lambda>line. type line \<noteq> T_unknown) parsedLines,
        extractedText = stackTraceText \<rparr>)"

section \<open>Rendering\<close>

text \<open>\<open>text.replace(/c/g, r)\<close> for a single character \<open>c\<close>.\<close>

definition replaceChar :: "cu \<Rightarrow> jstring \<Rightarrow> jstring \<Rightarrow> jstring" where
  "replaceChar c r s = concat (map (\<lambda>x. if x = c then r else [x]) s)"

definition escapeHtml :: "jstring \<Rightarrow> jstring" where
  "escapeHtml text =
     replaceChar 0x27 (js ''&#39;'')
       (replaceChar 0x22 (js ''&quot;'')
         (replaceChar 0x3E (js ''&gt;'')
           (replaceChar 0x3C (js ''&lt;'')
             (replaceChar 0x26 (js ''&amp;'') text))))"

text \<open>\<open>s.repeat(n)\<close>\<close>

fun repeat :: "jstring \<Rightarrow> nat \<Rightarrow> jstring" where
  "repeat s 0 = []"
| "repeat s (Suc n) = s @ repeat s n"

text \<open>The decimal digits of a natural number.\<close>

function showNat :: "nat \<Rightarrow> jstring" where
  "showNat n = (if n < 10 then [of_nat (48 + n)] else showNat (n div 10) @ [of_nat (48 + n mod 10)])"
  by pat_completeness auto
termination
  by (relation "measure id") auto

declare showNat.simps [simp del]

text \<open>
  A number as a string.  A natural number below \<open>2 ^ 53\<close> is written with its decimal digits.
  A greater finite number is written with the shortest digits that give the number back, in
  exponent form from \<open>10 ^ 21\<close> on; these digits are not computed here but taken from the
  parameter \<open>large\<close>.
\<close>

definition numberToString :: "(nat \<Rightarrow> jstring) \<Rightarrow> jsNumber \<Rightarrow> jstring" where
  "numberToString large n =
     (case n of
        Infinity \<Rightarrow> js ''Infinity''
      | Finite v \<Rightarrow> if v < 2 ^ 53 then showNat v else large v)"

text \<open>A number in a condition: \<open>0\<close> counts as false.\<close>

definition truthyNumber :: "jsNumber \<Rightarrow> bool" where
  "truthyNumber n = (n \<noteq> Finite 0)"

definition typeName :: "lineType \<Rightarrow> jstring" where
  "typeName t = (case t of T_exception \<Rightarrow> js ''exception'' | T_at \<Rightarrow> js ''at''
     | T_caused_by \<Rightarrow> js ''caused_by'' | T_suppressed \<Rightarrow> js ''suppressed''
     | T_more \<Rightarrow> js ''more'' | T_unknown \<Rightarrow> js ''unknown'')"

text \<open>\<open>x || ''\<close> for an optional string.\<close>

definition orEmpty :: "jstring option \<Rightarrow> jstring" where
  "orEmpty x = (case x of None \<Rightarrow> [] | Some s \<Rightarrow> s)"

text \<open>\<open>s.replace(r, '')\<close> for a pattern \<open>r\<close> without the \<open>g\<close> flag that begins with \<open>^\<close>:
  the first match is cut off the front, and a string that does not match is unchanged.\<close>

definition removePrefix :: "re \<Rightarrow> jstring \<Rightarrow> jstring" where
  "removePrefix r s = (case ms r s [] of [] \<Rightarrow> s | p # _ \<Rightarrow> fst p)"

text \<open>\<open>/^\s*Caused by:\s*/\<close> and \<open>/^\s*Suppressed:\s*/\<close>\<close>

definition causedByPrefix_re :: re where
  "causedByPrefix_re = seqs [Star (Cls is_ws), Lit (js ''Caused by:''), Star (Cls is_ws)]"

definition suppressedPrefix_re :: re where
  "suppressedPrefix_re = seqs [Star (Cls is_ws), Lit (js ''Suppressed:''), Star (Cls is_ws)]"

text \<open>The markup of one line: the function that \<open>formatAsHtml\<close> maps over the lines.  The
  first argument writes the numbers from \<open>2 ^ 53\<close> on, see \<open>numberToString\<close>.\<close>

definition formatLine :: "(nat \<Rightarrow> jstring) \<Rightarrow> StackTraceLine \<Rightarrow> jstring" where
  \<open>formatLine large line =
     (let indentSpaces = repeat (js ''&nbsp;'') (indent line);
          escapedContent = escapeHtml (trim (content line));
          cssClass = js ''stacktrace-'' @ typeName (type line)
      in case type line of
        T_exception \<Rightarrow>
          js ''<div class="'' @ cssClass @ js ''">'' @ indentSpaces
          @ js ''<span class="exception-text">'' @ escapedContent @ js ''</span></div>''
      | T_at \<Rightarrow>
          js ''<div class="'' @ cssClass @ js ''">'' @ indentSpaces
          @ js ''<span class="at-keyword">at</span> <span class="method-name">''
          @ escapeHtml (orEmpty (className line)) @ js ''.''
          @ escapeHtml (orEmpty (methodName line)) @ js ''</span>(<span class="location">''
          @ escapeHtml (orEmpty (fileName line))
          @ (case lineNumber line of
               None \<Rightarrow> []
             | Some n \<Rightarrow> if truthyNumber n then js '':'' @ numberToString large n else [])
          @ js ''</span>)</div>''
      | T_caused_by \<Rightarrow>
          js ''<div class="'' @ cssClass @ js ''">'' @ indentSpaces
          @ js ''<span class="caused-by-keyword">Caused by:</span> <span class="exception-text">''
          @ escapeHtml (removePrefix causedByPrefix_re (content line)) @ js ''</span></div>''
      | T_suppressed \<Rightarrow>
          js ''<div class="'' @ cssClass @ js ''">'' @ indentSpaces
          @ js ''<span class="suppressed-keyword">Suppressed:</span> <span class="exception-text">''
          @ escapeHtml (removePrefix suppressedPrefix_re (content line)) @ js ''</span></div>''
      | T_more \<Rightarrow>
          js ''<div class="'' @ cssClass @ js ''">'' @ indentSpaces
          @ js ''<span class="more-text">'' @ escapedContent @ js ''</span></div>''
      | T_unknown \<Rightarrow>
          js ''<div class="'' @ cssClass @ js ''">'' @ indentSpaces @ escapedContent
          @ js ''</div>'')\<close>

definition noStackTraceHtml :: jstring where
  \<open>noStackTraceHtml = js ''<p class="no-stacktrace">No stack trace found</p>''\<close>

definition formatAsHtml :: "(nat \<Rightarrow> jstring) \<Rightarrow> ParsedStackTrace \<Rightarrow> jstring" where
  \<open>formatAsHtml large parsedStackTrace =
     (if \<not> hasStackTrace parsedStackTrace then noStackTraceHtml
      else js ''<div class="stacktrace-container">''
           @ joinNl (map (formatLine large) (lines parsedStackTrace)) @ js ''</div>'')\<close>

section \<open>Unescaping\<close>

text \<open>\<open>str.replace(/\\c/g, r)\<close>: every backslash that is followed by the character \<open>c\<close> is
  replaced, with that character, by \<open>r\<close>, from left to right.\<close>

fun replaceEscape :: "cu \<Rightarrow> cu \<Rightarrow> jstring \<Rightarrow> jstring" where
  "replaceEscape c r (x # y # s) =
     (if x = 0x5C \<and> y = c then r # replaceEscape c r s else x # replaceEscape c r (y # s))"
| "replaceEscape c r s = s"

text \<open>\<open>[0-9a-fA-F]\<close> and the value of a hexadecimal digit.\<close>

definition is_hex :: "cu \<Rightarrow> bool" where
  "is_hex c = (is_digit c \<or> (0x41 \<le> c \<and> c \<le> 0x46) \<or> (0x61 \<le> c \<and> c \<le> 0x66))"

definition hexDigit :: "cu \<Rightarrow> nat" where
  "hexDigit c = (if is_digit c then unat c - 48 else if c \<le> 0x46 then unat c - 55 else unat c - 87)"

text \<open>\<open>String.fromCharCode(parseInt(hex, 16))\<close> for a string of hexadecimal digits.\<close>

definition fromHex :: "jstring \<Rightarrow> cu" where
  "fromHex hex = of_nat (foldl (\<lambda>n d. 16 * n + hexDigit d) 0 hex)"

text \<open>\<open>str.replace(/\\u([0-9a-fA-F]{4})/g, ...)\<close> and \<open>str.replace(/\\x([0-9a-fA-F]{2})/g, ...)\<close>\<close>

fun replaceUnicode :: "jstring \<Rightarrow> jstring" where
  "replaceUnicode (b # u # h1 # h2 # h3 # h4 # s) =
     (if b = 0x5C \<and> u = 0x75 \<and> is_hex h1 \<and> is_hex h2 \<and> is_hex h3 \<and> is_hex h4
      then fromHex [h1, h2, h3, h4] # replaceUnicode s
      else b # replaceUnicode (u # h1 # h2 # h3 # h4 # s))"
| "replaceUnicode (b # s) = b # replaceUnicode s"
| "replaceUnicode [] = []"

fun replaceHex :: "jstring \<Rightarrow> jstring" where
  "replaceHex (b # x # h1 # h2 # s) =
     (if b = 0x5C \<and> x = 0x78 \<and> is_hex h1 \<and> is_hex h2
      then fromHex [h1, h2] # replaceHex s
      else b # replaceHex (x # h1 # h2 # s))"
| "replaceHex (b # s) = b # replaceHex s"
| "replaceHex [] = []"

definition unescapeJsonString :: "jstring \<Rightarrow> jstring" where
  "unescapeJsonString str =
     replaceHex
       (replaceUnicode
         (replaceEscape 0x5C 0x5C
           (replaceEscape 0x22 0x22
             (replaceEscape 0x74 0x9
               (replaceEscape 0x72 0xD
                 (replaceEscape 0x6E 0xA str))))))"

section \<open>Extraction\<close>

text \<open>\<open>/(?:Exception|Error)(?::\s*|$)/\<close>, \<open>/^Exception in thread/\<close> and
  \<open>/^\s*at\s+[a-zA-Z_$]/\<close>\<close>

definition exceptionMark_re :: re where
  "exceptionMark_re = seqs [Alt (Lit (js ''Exception'')) (Lit (js ''Error'')),
     Alt (seqs [Lit (js '':''), Star (Cls is_ws)]) Eol]"

definition threadMark_re :: re where
  "threadMark_re = Lit (js ''Exception in thread'')"

definition atMark_re :: re where
  "atMark_re = seqs [Star (Cls is_ws), Lit (js ''at''), Plus (Cls is_ws), Cls is_id_start]"

text \<open>\<open>s.match(r)\<close> is not \<open>null\<close>, for a pattern without \<open>^\<close> and without the \<open>g\<close> flag.\<close>

definition reFind :: "re \<Rightarrow> jstring \<Rightarrow> bool" where
  "reFind r s = (search r 0 s \<noteq> None)"

text \<open>The loop of \<open>containsStackTracePatterns\<close>, over the state of its three variables
  \<open>stackTraceLineCount\<close>, \<open>hasExceptionLine\<close> and \<open>hasAtLine\<close>.\<close>

fun patternLoop :: "jstring list \<Rightarrow> nat \<times> bool \<times> bool \<Rightarrow> nat \<times> bool \<times> bool" where
  "patternLoop [] st = st"
| "patternLoop (line # rest) (stackTraceLineCount, hasExceptionLine, hasAtLine) =
     (if isStackTraceLine line then
        (let trimmed = trim line in
         patternLoop rest
           (stackTraceLineCount + 1,
            (if reFind exceptionMark_re trimmed \<or> reTest threadMark_re trimmed then True
             else hasExceptionLine),
            (if reTest atMark_re trimmed then True else hasAtLine)))
      else patternLoop rest (stackTraceLineCount, hasExceptionLine, hasAtLine))"

definition containsStackTracePatterns :: "jstring \<Rightarrow> bool" where
  "containsStackTracePatterns contentText =
     (case patternLoop (splitLines contentText) (0, False, False) of
        (stackTraceLineCount, hasExceptionLine, hasAtLine) \<Rightarrow>
          stackTraceLineCount \<ge> 2 \<or> (hasExceptionLine \<and> hasAtLine) \<or> stackTraceLineCount \<ge> 3)"

text \<open>
  \<open>r.exec(input)\<close> for a pattern with the \<open>g\<close> flag whose \<open>lastIndex\<close> is the given one:
  the first match at or after \<open>lastIndex\<close>, as \<open>(index, end, captures)\<close>.  After a match the
  pattern's \<open>lastIndex\<close> is \<open>end\<close>.
\<close>

definition exec :: "re \<Rightarrow> jstring \<Rightarrow> nat \<Rightarrow> (nat \<times> nat \<times> caps) option" where
  "exec r input lastIndex =
     (if lastIndex > length input then None else search r lastIndex (drop lastIndex input))"

text \<open>
  \<open>while ((match = pattern.exec(input)) !== null) { ... }\<close>: the body either returns a string
  from the enclosing function (\<open>Some\<close>) or falls through to the next match.  The loop ends
  with \<open>null\<close> when there is no further match.  A loop that never ends has the value \<open>None\<close>.
\<close>

partial_function (option) execLoop ::
  "re \<Rightarrow> (nat \<times> nat \<times> caps \<Rightarrow> jstring option) \<Rightarrow> jstring \<Rightarrow> nat \<Rightarrow> jstring option option"
where
  "execLoop pattern body input lastIndex =
     (case exec pattern input lastIndex of
        None \<Rightarrow> Some None
      | Some m \<Rightarrow>
          (case body m of
             Some result \<Rightarrow> Some (Some result)
           | None \<Rightarrow> execLoop pattern body input (fst (snd m))))"

declare execLoop.simps [code]

text \<open>\<open>for (const pattern of patterns) { while (...) {...} }\<close>\<close>

fun patternsLoop ::
  "re list \<Rightarrow> (nat \<times> nat \<times> caps \<Rightarrow> jstring option) \<Rightarrow> jstring \<Rightarrow> jstring option option"
where
  "patternsLoop [] body input = Some None"
| "patternsLoop (pattern # rest) body input =
     (case execLoop pattern body input 0 of
        None \<Rightarrow> None
      | Some (Some result) \<Rightarrow> Some (Some result)
      | Some None \<Rightarrow> patternsLoop rest body input)"

text \<open>\<open>[^"\\]\<close>, \<open>[^"]\<close> and the body of a quoted string, \<open>[^"\\]*(?:\\.[^"\\]*)*\<close>.  The
  second group of \<open>quotedStringPattern\<close> is never read, and is not recorded.\<close>

definition not_quote_bs :: "cu \<Rightarrow> bool" where
  "not_quote_bs c = (c \<noteq> 0x22 \<and> c \<noteq> 0x5C)"

definition not_quote :: "cu \<Rightarrow> bool" where
  "not_quote c = (c \<noteq> 0x22)"

definition escapes :: re where
  "escapes = Star (seqs [Lit [0x5C], Cls is_dot, Star (Cls not_quote_bs)])"

definition stringBody :: re where
  "stringBody = seqs [Star (Cls not_quote_bs), escapes]"

definition quotedStringPattern :: re where
  "quotedStringPattern = seqs [Lit [0x22], Grp 1 stringBody, Lit [0x22]]"

text \<open>The body of the loops of \<open>extractFromQuotedStrings\<close> and \<open>extractFromIncompleteJson\<close>.\<close>

definition quotedBody :: "nat \<times> nat \<times> caps \<Rightarrow> jstring option" where
  "quotedBody m =
     (let quotedContent = grp (snd (snd m)) 1;
          unescapedContent = unescapeJsonString quotedContent
      in if containsStackTracePatterns unescapedContent then Some unescapedContent else None)"

definition extractFromQuotedStrings :: "jstring \<Rightarrow> jstring option option" where
  "extractFromQuotedStrings input = execLoop quotedStringPattern quotedBody input 0"

definition incompletePatterns :: "re list" where
  "incompletePatterns =
     [seqs [Lit [0x22], Star (Cls not_quote), Lit [0x22], Lit (js '':''), Star (Cls is_ws),
            Lit [0x22], Grp 1 stringBody],
      seqs [Lit (js '':''), Star (Cls is_ws), Lit [0x22], Grp 1 stringBody],
      seqs [Lit [0x22],
            Grp 1 (seqs [Star (Cls not_quote_bs), escapes,
                         Alt (Lit (js ''Exception'')) (Lit (js ''Error'')),
                         Star (Cls not_quote_bs), escapes])]]"

definition extractFromIncompleteJson :: "jstring \<Rightarrow> jstring option option" where
  "extractFromIncompleteJson input = patternsLoop incompletePatterns quotedBody input"

text \<open>\<open>s.includes(t)\<close>\<close>

fun includesStr :: "jstring \<Rightarrow> jstring \<Rightarrow> bool" where
  "includesStr [] t = (t = [])"
| "includesStr (c # cs) t = (take (length t) (c # cs) = t \<or> includesStr cs t)"

text \<open>\<open>input[i]\<close>, which is \<open>undefined\<close> outside the string.\<close>

definition charAt :: "jstring \<Rightarrow> nat \<Rightarrow> cu option" where
  "charAt input i = (if i < length input then Some (input ! i) else None)"

text \<open>The first loop of \<open>extractExtendedEscapedSequence\<close>, which walks back from the match.\<close>

fun backwardScan :: "jstring \<Rightarrow> nat \<Rightarrow> nat" where
  "backwardScan input 0 = 0"
| "backwardScan input (Suc n) =
     (if charAt input n \<noteq> Some 0x22 \<and> charAt input n \<noteq> Some 0x20
         \<and> charAt input n \<noteq> Some 0x9 \<and> charAt input n \<noteq> Some 0xA
      then backwardScan input n else Suc n)"

text \<open>
  The second loop of \<open>extractExtendedEscapedSequence\<close>, which walks forward from the match:
  \<open>forwardScan input startIndex i escapeCount inEscape\<close> is the state in which the loop is
  left when it is entered with these values of its variables, as the pair of \<open>end\<close> and of
  the last value of the loop index \<open>i\<close>.  The variable \<open>end\<close> is \<open>startIndex\<close> until the
  loop assigns it, right before it breaks.
\<close>

function forwardScan :: "jstring \<Rightarrow> nat \<Rightarrow> nat \<Rightarrow> nat \<Rightarrow> bool \<Rightarrow> nat \<times> nat" where
  "forwardScan input startIndex i escapeCount inEscape =
     (if i < length input then
        (if input ! i = 0x5C \<and> \<not> inEscape then
           (if i > startIndex + 2000 then (startIndex, i)
            else forwardScan input startIndex (Suc i) (escapeCount + 1) True)
         else if inEscape then
           (if i > startIndex + 2000 then (startIndex, i)
            else forwardScan input startIndex (Suc i) escapeCount False)
         else if input ! i = 0x22 \<and> escapeCount > 0 then (i, i)
         else if (input ! i = 0x20 \<or> input ! i = 0x9 \<or> input ! i = 0xA) \<and> escapeCount \<ge> 2
           then (i, i)
         else
           (if i > startIndex + 2000 then (startIndex, i)
            else forwardScan input startIndex (Suc i) escapeCount inEscape))
      else (startIndex, i))"
  by pat_completeness auto
termination
  by (relation "measure (\<lambda>(input, startIndex, i, escapeCount, inEscape). length input - i)") auto

declare forwardScan.simps [simp del]

text \<open>\<open>s.substring(a, b)\<close>\<close>

definition substring :: "jstring \<Rightarrow> nat \<Rightarrow> nat \<Rightarrow> jstring" where
  "substring s a b =
     (let a' = min a (length s); b' = min b (length s)
      in take (max a' b' - min a' b') (drop (min a' b') s))"

definition extractExtendedEscapedSequence :: "jstring \<Rightarrow> nat \<Rightarrow> jstring" where
  "extractExtendedEscapedSequence input startIndex =
     (let start = backwardScan input startIndex;
          end0 = fst (forwardScan input startIndex startIndex 0 False);
          end1 = (if end0 \<le> startIndex then min (length input) (startIndex + 1000) else end0)
      in substring input start end1)"

definition escapedPatterns :: "re list" where
  "escapedPatterns =
     [Grp 1 (seqs [Star (Cls not_quote), Alt (Lit (js ''Exception'')) (Lit (js ''Error'')),
                   Star (Cls not_quote), Lit [0x5C, 0x6E], Star (Cls not_quote),
                   Lit [0x5C, 0x74], Star (Cls not_quote), Lit (js ''at''), Plus (Cls is_ws),
                   Cls is_id_start, Star (Cls not_quote)]),
      Grp 1 (seqs [Star (Cls not_quote),
                   Alt (Lit (js ''java.'')) (Alt (Lit (js ''com.'')) (Lit (js ''org.''))),
                   Star (Cls not_quote), Lit [0x5C, 0x6E], Star (Cls not_quote),
                   Lit [0x5C, 0x74], Star (Cls not_quote), Lit (js ''at''), Plus (Cls is_ws),
                   Star (Cls not_quote),
                   Plus (seqs [Lit [0x5C, 0x6E], Star (Cls not_quote)])])]"

text \<open>The body of the loop of \<open>extractFromRawEscapedText\<close>.\<close>

definition rawBody :: "jstring \<Rightarrow> nat \<times> nat \<times> caps \<Rightarrow> jstring option" where
  "rawBody input m =
     (let matched = grp (snd (snd m)) 1 in
      if includesStr matched [0x5C, 0x6E] \<and> includesStr matched [0x5C, 0x74]
         \<and> includesStr matched (js ''at '')
      then
        (let extendedContent = extractExtendedEscapedSequence input (fst m);
             unescapedContent = unescapeJsonString extendedContent
         in if containsStackTracePatterns unescapedContent then Some unescapedContent else None)
      else None)"

definition extractFromRawEscapedText :: "jstring \<Rightarrow> jstring option option" where
  "extractFromRawEscapedText input = patternsLoop escapedPatterns (rawBody input) input"

text \<open>\<open>if (x)\<close> for a value that is a string or \<open>null\<close>: the empty string counts as false.\<close>

definition truthy :: "jstring option \<Rightarrow> bool" where
  "truthy x = (case x of None \<Rightarrow> False | Some s \<Rightarrow> s \<noteq> [])"

definition extractSerializedStackTrace :: "jstring \<Rightarrow> jstring option option" where
  "extractSerializedStackTrace input =
     (case extractFromQuotedStrings input of
        None \<Rightarrow> None
      | Some completeQuotedResult \<Rightarrow>
          if truthy completeQuotedResult then Some completeQuotedResult
          else case extractFromIncompleteJson input of
            None \<Rightarrow> None
          | Some incompleteJsonResult \<Rightarrow>
              if truthy incompleteJsonResult then Some incompleteJsonResult
              else case extractFromRawEscapedText input of
                None \<Rightarrow> None
              | Some rawEscapedResult \<Rightarrow>
                  if truthy rawEscapedResult then Some rawEscapedResult else Some None)"

text \<open>
  The line-by-line loop of \<open>extractStackTrace\<close>: \<open>lineLoop ls i inStackTrace stackTraceLines\<close>
  is the value of \<open>stackTraceLines\<close> when the loop is left.  The variable
  \<open>stackTraceStartIndex\<close> is written and never read, and is left out.  The inner loop looks
  at the lines \<open>i + 1\<close> and \<open>i + 2\<close>, as far as they exist.
\<close>

definition foundMoreStackTrace :: "jstring list \<Rightarrow> nat \<Rightarrow> bool" where
  "foundMoreStackTrace ls i =
     list_ex (\<lambda>j. isStackTraceLine (ls ! j)) [i + 1..<min (i + 3) (length ls)]"

function lineLoop :: "jstring list \<Rightarrow> nat \<Rightarrow> bool \<Rightarrow> jstring list \<Rightarrow> jstring list" where
  "lineLoop ls i inStackTrace stackTraceLines =
     (if i < length ls then
        (if isStackTraceLine (ls ! i) \<and> \<not> inStackTrace then
           lineLoop ls (Suc i) True (stackTraceLines @ [ls ! i])
         else if isStackTraceLine (ls ! i) \<and> inStackTrace then
           lineLoop ls (Suc i) inStackTrace (stackTraceLines @ [ls ! i])
         else if inStackTrace \<and> trim (ls ! i) = [] then
           lineLoop ls (Suc i) inStackTrace (stackTraceLines @ [ls ! i])
         else if inStackTrace \<and> \<not> isStackTraceLine (ls ! i) then
           (if \<not> foundMoreStackTrace ls i then stackTraceLines
            else lineLoop ls (Suc i) inStackTrace (stackTraceLines @ [ls ! i]))
         else lineLoop ls (Suc i) inStackTrace stackTraceLines)
      else stackTraceLines)"
  by pat_completeness auto
termination
  by (relation "measure (\<lambda>(ls, i, inStackTrace, stackTraceLines). length ls - i)") auto

declare lineLoop.simps [simp del]

text \<open>\<open>extractStackTrace\<close>; \<open>None\<close> stands for a call that does not return.\<close>

definition extractStackTrace :: "jstring \<Rightarrow> jstring option" where
  "extractStackTrace input =
     (case extractSerializedStackTrace input of
        None \<Rightarrow> None
      | Some serializedStackTrace \<Rightarrow>
          if truthy serializedStackTrace then serializedStackTrace
          else Some (joinNl (lineLoop (splitLines input) 0 False [])))"

section \<open>Notions of the specification and of the proofs\<close>

text \<open>A line is recognised when one of the five line patterns matches it.\<close>

definition recognized :: "jstring \<Rightarrow> bool" where
  "recognized line = list_ex (\<lambda>pattern. reTest pattern line) STACK_TRACE_PATTERNS"

text \<open>
  The last segment of a dotted path and what stands before its last dot, read off the path
  from its end; a path without a dot is its own last segment.
\<close>

definition lastSegment :: "jstring \<Rightarrow> jstring" where
  "lastSegment s = rev (takeWhile (\<lambda>c. c \<noteq> 0x2E) (rev s))"

definition beforeLastSegment :: "jstring \<Rightarrow> jstring" where
  "beforeLastSegment s = rev (drop 1 (dropWhile (\<lambda>c. c \<noteq> 0x2E) (rev s)))"

text \<open>A location of the form \<open><anything>:<digits>\<close>: a non-empty prefix without a line
  terminator, a colon, and a non-empty string of digits up to the end.\<close>

definition numberedLocation :: "jstring \<Rightarrow> jstring \<Rightarrow> jstring \<Rightarrow> bool" where
  "numberedLocation location pre digs \<longleftrightarrow>
     location = pre @ js '':'' @ digs \<and> pre \<noteq> [] \<and> (\<forall>c \<in> set pre. is_dot c)
     \<and> digs \<noteq> [] \<and> (\<forall>c \<in> set digs. is_digit c)"

text \<open>The value of a string of decimal digits, from its positional notation.\<close>

fun decimalValue :: "jstring \<Rightarrow> nat" where
  "decimalValue [] = 0"
| "decimalValue (d # ds) = (unat d - 48) * 10 ^ length ds + decimalValue ds"

text \<open>The least number of code units that a match of a pattern consumes.\<close>

fun minlen :: "re \<Rightarrow> nat" where
  "minlen Eps = 0"
| "minlen (Cls P) = 1"
| "minlen (Lit l) = length l"
| "minlen (Seq a b) = minlen a + minlen b"
| "minlen (Alt a b) = min (minlen a) (minlen b)"
| "minlen (Star r) = 0"
| "minlen (Grp n r) = minlen r"
| "minlen Eol = 0"

text \<open>
  The number of characters that the forward walk of \<open>extractExtendedEscapedSequence\<close> visits:
  the loop runs its body for every index from \<open>startIndex\<close> up to the index at which it is
  left, or up to the end of the input when it is left there.
\<close>

definition forwardScanned :: "jstring \<Rightarrow> nat \<Rightarrow> nat" where
  "forwardScanned input startIndex =
     min (Suc (snd (forwardScan input startIndex startIndex 0 False))) (length input) - startIndex"

text \<open>
  The run of lines that the fallback looks for, in the words of the specification.  A run
  starts at the first trace-like line (\<open>lineRun\<close>).  Within a run (\<open>runFrom\<close>) a trace-like
  line and a blank line are kept; any other line is kept when one of the next two lines is
  trace-like, and ends the run otherwise.
\<close>

fun runFrom :: "jstring list \<Rightarrow> jstring list" where
  "runFrom [] = []"
| "runFrom (l # ls) =
     (if isStackTraceLine l then l # runFrom ls
      else if trim l = [] then l # runFrom ls
      else if list_ex isStackTraceLine (take 2 ls) then l # runFrom ls
      else [])"

fun lineRun :: "jstring list \<Rightarrow> jstring list" where
  "lineRun [] = []"
| "lineRun (l # ls) = (if isStackTraceLine l then l # runFrom ls else lineRun ls)"

text \<open>A character that every match of a pattern contains, by the shape of the pattern.\<close>

fun mustContain :: "cu \<Rightarrow> re \<Rightarrow> bool" where
  "mustContain c (Lit l) = (c \<in> set l)"
| "mustContain c (Seq a b) = (mustContain c a \<or> mustContain c b)"
| "mustContain c (Alt a b) = (mustContain c a \<and> mustContain c b)"
| "mustContain c (Grp n r) = mustContain c r"
| "mustContain c r = False"

text \<open>The two tests that \<open>containsStackTracePatterns\<close> makes on a trace-like line to set
  \<open>hasExceptionLine\<close> and \<open>hasAtLine\<close>.\<close>

definition exceptionMarked :: "jstring \<Rightarrow> bool" where
  "exceptionMarked line =
     (reFind exceptionMark_re (trim line) \<or> reTest threadMark_re (trim line))"

definition frameMarked :: "jstring \<Rightarrow> bool" where
  "frameMarked line = reTest atMark_re (trim line)"









section \<open>Evaluation\<close>

lemmas char_defs = js_def is_ws_def is_dot_def is_alpha_def is_digit_def is_id_start_def
  is_id_char_def is_id_dot_def not_rparen_def

lemmas re_defs = exceptionName_def exception_re_def methodPath_def at_re_def causedBy_re_def
  suppressed_re_def more_re_def location_re_def STACK_TRACE_PATTERNS_def Plus_def Opt_def
  reMatch_def reTest_def grp_def ms.simps

lemmas parse_defs = isStackTraceLine_def parseStackTraceLine_def plainLine_def splitMethod_def
  splitLocation_def parseInt_def roundToDouble_def trim_def trimStart_def parseStackTrace_def recognized_def

section \<open>What the matcher accepts\<close>

lemma in_ms_Seq:
  "(s', e') \<in> set (ms (Seq a b) s e)
     \<longleftrightarrow> (\<exists>s1 e1. (s1, e1) \<in> set (ms a s e) \<and> (s', e') \<in> set (ms b s1 e1))"
  by (force simp: ms.simps)

lemma in_ms_Alt:
  "(s', e') \<in> set (ms (Alt a b) s e)
     \<longleftrightarrow> (s', e') \<in> set (ms a s e) \<or> (s', e') \<in> set (ms b s e)"
  by (simp add: ms.simps)

lemma in_ms_Cls: "(s', e') \<in> set (ms (Cls P) s e) \<longleftrightarrow> (\<exists>c. s = c # s' \<and> P c \<and> e' = e)"
  by (cases s) (auto simp: ms.simps)

lemma in_ms_Lit: "(s', e') \<in> set (ms (Lit l) s e) \<longleftrightarrow> s = l @ s' \<and> e' = e"
proof -
  have "take (length l) s = l \<and> s' = drop (length l) s \<longleftrightarrow> s = l @ s'"
    by (metis append_eq_conv_conj)
  then show ?thesis by (auto simp: ms.simps)
qed

lemma in_ms_Eol: "(s', e') \<in> set (ms Eol s e) \<longleftrightarrow> s = [] \<and> s' = [] \<and> e' = e"
  by (auto simp: ms.simps)

lemma in_ms_Eps: "(s', e') \<in> set (ms Eps s e) \<longleftrightarrow> s' = s \<and> e' = e"
  by (auto simp: ms.simps)

lemma in_ms_Star:
  "(s', e') \<in> set (ms (Star r) s e) \<longleftrightarrow>
     (s' = s \<and> e' = e) \<or>
     (\<exists>s1 e1. (s1, e1) \<in> set (ms r s e) \<and> length s1 < length s \<and> (s', e') \<in> set (ms (Star r) s1 e1))"
proof -
  have "set (ms (Star r) s e) =
      (\<Union>p \<in> set (ms r s e). if length (fst p) < length s then set (ms (Star r) (fst p) (snd p)) else {})
      \<union> {(s, e)}"
    by (subst ms.simps(6)) (simp add: if_distrib [of set] cong: if_cong)
  then have "(s', e') \<in> set (ms (Star r) s e) \<longleftrightarrow>
      (s', e') = (s, e) \<or> (\<exists>p \<in> set (ms r s e). length (fst p) < length s
         \<and> (s', e') \<in> set (ms (Star r) (fst p) (snd p)))"
    by (simp only: Un_iff UN_iff singleton_iff) (auto split: if_splits)
  also have "\<dots> \<longleftrightarrow> (s' = s \<and> e' = e) \<or>
     (\<exists>s1 e1. (s1, e1) \<in> set (ms r s e) \<and> length s1 < length s \<and> (s', e') \<in> set (ms (Star r) s1 e1))"
    by (simp add: Bex_def)
  finally show ?thesis .
qed

lemma ms_suffix: "(s', e') \<in> set (ms r s e) \<Longrightarrow> \<exists>g. s = g @ s'"
proof (induction r s e arbitrary: s' e' rule: ms.induct)
  case (1 s e)
  then show ?case by (simp add: ms.simps)
next
  case (2 P s e)
  then show ?case by (cases s) (auto simp: ms.simps split: if_splits)
next
  case (3 l s e)
  then show ?case by (auto simp: ms.simps split: if_splits) (metis append_take_drop_id)
next
  case (4 a b s e)
  from "4.prems" obtain s1 e1 where 1: "(s1, e1) \<in> set (ms a s e)" and 2: "(s', e') \<in> set (ms b s1 e1)"
    by (force simp: ms.simps)
  from "4.IH"(1) [OF 1] obtain g1 where "s = g1 @ s1" by blast
  moreover from "4.IH"(2) [OF 1] 2 obtain g2 where "s1 = g2 @ s'" by fastforce
  ultimately have "s = (g1 @ g2) @ s'" by simp
  then show ?case by blast
next
  case (5 a b s e)
  then show ?case by (auto simp: ms.simps)
next
  case (6 r s e)
  from "6.prems" consider "s' = s" | s1 e1 where "(s1, e1) \<in> set (ms r s e)" "length s1 < length s"
      "(s', e') \<in> set (ms (Star r) s1 e1)"
    using in_ms_Star [of s' e' r s e] by blast
  then show ?case
  proof cases
    case 1
    then show ?thesis by simp
  next
    case 2
    from "6.IH"(1) [OF 2(1)] obtain g1 where "s = g1 @ s1" by blast
    moreover from "6.IH"(2) [OF 2(1)] 2 obtain g2 where "s1 = g2 @ s'" by fastforce
    ultimately have "s = (g1 @ g2) @ s'" by simp
    then show ?thesis by blast
  qed
next
  case (7 n r s e)
  then show ?case by (force simp: ms.simps)
next
  case (8 s e)
  then show ?case by (auto simp: ms.simps split: if_splits)
qed

lemma in_ms_Grp:
  "(s', e') \<in> set (ms (Grp n r) s e) \<longleftrightarrow>
     (\<exists>e1 g. (s', e1) \<in> set (ms r s e) \<and> s = g @ s' \<and> e' = (n, g) # e1)"
proof
  assume "(s', e') \<in> set (ms (Grp n r) s e)"
  then obtain e1 where 1: "(s', e1) \<in> set (ms r s e)"
    and 2: "e' = (n, take (length s - length s') s) # e1"
    by (force simp: ms.simps)
  from ms_suffix [OF 1] obtain g where "s = g @ s'" by blast
  with 1 2 show "\<exists>e1 g. (s', e1) \<in> set (ms r s e) \<and> s = g @ s' \<and> e' = (n, g) # e1"
    by auto
next
  assume "\<exists>e1 g. (s', e1) \<in> set (ms r s e) \<and> s = g @ s' \<and> e' = (n, g) # e1"
  then show "(s', e') \<in> set (ms (Grp n r) s e)"
    by (force simp: ms.simps image_iff)
qed

lemma ms_Star_Cls_Cons:
  "ms (Star (Cls P)) (c # cs) e =
     (if P c then ms (Star (Cls P)) cs e @ [(c # cs, e)] else [(c # cs, e)])"
  by (simp add: ms.simps(2) ms.simps(6) [of "Cls P" "c # cs"])

lemma ms_Star_Cls_Nil: "ms (Star (Cls P)) [] e = [([], e)]"
  by (simp add: ms.simps(2) ms.simps(6) [of "Cls P" "[]"])

lemma in_ms_Star_Cls:
  "(s', e') \<in> set (ms (Star (Cls P)) s e) \<longleftrightarrow> (\<exists>u. s = u @ s' \<and> (\<forall>x \<in> set u. P x) \<and> e' = e)"
proof (induction s)
  case Nil
  show ?case by (auto simp: ms_Star_Cls_Nil)
next
  case (Cons c cs)
  have split: "(\<exists>u. c # cs = u @ s' \<and> (\<forall>x \<in> set u. P x))
      \<longleftrightarrow> s' = c # cs \<or> (P c \<and> (\<exists>u. cs = u @ s' \<and> (\<forall>x \<in> set u. P x)))"
    (is "?L \<longleftrightarrow> ?R")
  proof
    assume ?L
    then obtain u where u: "c # cs = u @ s'" "\<forall>x \<in> set u. P x" by blast
    show ?R
    proof (cases u)
      case Nil
      with u show ?thesis by simp
    next
      case (Cons a u')
      with u have "cs = u' @ s'" "P c" "\<forall>x \<in> set u'. P x" by auto
      then show ?thesis by blast
    qed
  next
    assume ?R
    then show ?L
    proof
      assume "s' = c # cs"
      then have "c # cs = [] @ s' \<and> (\<forall>x \<in> set []. P x)" by simp
      then show ?L by blast
    next
      assume "P c \<and> (\<exists>u. cs = u @ s' \<and> (\<forall>x \<in> set u. P x))"
      then obtain u where "P c" "cs = u @ s'" "\<forall>x \<in> set u. P x" by blast
      then have "c # cs = (c # u) @ s' \<and> (\<forall>x \<in> set (c # u). P x)" by simp
      then show ?L by blast
    qed
  qed
  have "(s', e') \<in> set (ms (Star (Cls P)) (c # cs) e)
      \<longleftrightarrow> (s' = c # cs \<and> e' = e) \<or> (P c \<and> (s', e') \<in> set (ms (Star (Cls P)) cs e))"
    by (auto simp: ms_Star_Cls_Cons)
  also have "\<dots> \<longleftrightarrow> (s' = c # cs \<and> e' = e)
      \<or> (P c \<and> (\<exists>u. cs = u @ s' \<and> (\<forall>x \<in> set u. P x) \<and> e' = e))"
    by (simp only: Cons.IH)
  also have "\<dots> \<longleftrightarrow> (\<exists>u. c # cs = u @ s' \<and> (\<forall>x \<in> set u. P x)) \<and> e' = e"
    unfolding split by blast
  finally show ?case by blast
qed

lemmas in_ms = in_ms_Seq in_ms_Alt in_ms_Cls in_ms_Lit in_ms_Eol in_ms_Eps in_ms_Grp in_ms_Star_Cls

lemma in_ms_Plus_Cls:
  "(s', e') \<in> set (ms (Plus (Cls P)) s e)
     \<longleftrightarrow> (\<exists>c u. s = (c # u) @ s' \<and> P c \<and> (\<forall>x \<in> set u. P x) \<and> e' = e)"
  unfolding Plus_def in_ms_Seq in_ms_Cls in_ms_Star_Cls by auto

lemma in_ms_methodPath:
  assumes "(s', e') \<in> set (ms methodPath s e)"
  shows "\<exists>c u d v. s = (c # u @ 0x2E # d # v) @ s' \<and> is_id_start c \<and> (\<forall>x \<in> set u. is_id_dot x)
     \<and> is_id_start d \<and> (\<forall>x \<in> set v. is_id_char x) \<and> e' = e"
proof -
  from assms obtain s1 e1 s2 e2 s3 e3 s4 e4 where
    1: "(s1, e1) \<in> set (ms (Cls is_id_start) s e)" and
    2: "(s2, e2) \<in> set (ms (Star (Cls is_id_dot)) s1 e1)" and
    3: "(s3, e3) \<in> set (ms (Lit [0x2E]) s2 e2)" and
    4: "(s4, e4) \<in> set (ms (Cls is_id_start) s3 e3)" and
    5: "(s', e') \<in> set (ms (Star (Cls is_id_char)) s4 e4)"
    unfolding methodPath_def seqs.simps in_ms_Seq js_def by auto
  from 1 obtain c where c: "s = c # s1" "is_id_start c" "e1 = e" unfolding in_ms_Cls by blast
  from 2 obtain u where u: "s1 = u @ s2" "\<forall>x \<in> set u. is_id_dot x" "e2 = e1"
    unfolding in_ms_Star_Cls by blast
  from 3 have l: "s2 = 0x2E # s3" "e3 = e2" unfolding in_ms_Lit by auto
  from 4 obtain d where d: "s3 = d # s4" "is_id_start d" "e4 = e3" unfolding in_ms_Cls by blast
  from 5 obtain v where v: "s4 = v @ s'" "\<forall>x \<in> set v. is_id_char x" "e' = e4"
    unfolding in_ms_Star_Cls by blast
  have "s = (c # u @ 0x2E # d # v) @ s'" using c u l d v by simp
  with c u l d v show ?thesis by blast
qed

lemma in_ms_at_re:
  assumes "(s', e') \<in> set (ms at_re line [])"
  shows "\<exists>w1 w2 fm loc w3.
    line = w1 @ js ''at'' @ w2 @ fm @ js ''('' @ loc @ js '')'' @ w3
    \<and> e' = [(3, loc), (2, fm), (1, w1)]
    \<and> (\<forall>x \<in> set w1. is_ws x) \<and> w2 \<noteq> [] \<and> (\<forall>x \<in> set w2. is_ws x)
    \<and> (\<exists>c u d v. fm = c # u @ 0x2E # d # v \<and> is_id_start c \<and> (\<forall>x \<in> set u. is_id_dot x)
          \<and> is_id_start d \<and> (\<forall>x \<in> set v. is_id_char x))
    \<and> loc \<noteq> [] \<and> (\<forall>x \<in> set loc. not_rparen x)
    \<and> (\<forall>x \<in> set w3. is_ws x) \<and> s' = []"
proof -
  from assms obtain s1 e1 s2 e2 s3 e3 s4 e4 s5 e5 s6 e6 s7 e7 s8 e8 where
    1: "(s1, e1) \<in> set (ms (Grp 1 (Star (Cls is_ws))) line [])" and
    2: "(s2, e2) \<in> set (ms (Lit (js ''at'')) s1 e1)" and
    3: "(s3, e3) \<in> set (ms (Plus (Cls is_ws)) s2 e2)" and
    4: "(s4, e4) \<in> set (ms (Grp 2 methodPath) s3 e3)" and
    5: "(s5, e5) \<in> set (ms (Lit (js ''('')) s4 e4)" and
    6: "(s6, e6) \<in> set (ms (Grp 3 (Plus (Cls not_rparen))) s5 e5)" and
    7: "(s7, e7) \<in> set (ms (Lit (js '')'')) s6 e6)" and
    8: "(s8, e8) \<in> set (ms (Star (Cls is_ws)) s7 e7)" and
    9: "(s', e') \<in> set (ms Eol s8 e8)"
    unfolding at_re_def seqs.simps in_ms_Seq by auto
  from 1 obtain w1 where w1: "line = w1 @ s1" "\<forall>x \<in> set w1. is_ws x" "e1 = [(1, w1)]"
    unfolding in_ms_Grp in_ms_Star_Cls by auto
  from 2 have at: "s1 = js ''at'' @ s2" "e2 = e1" unfolding in_ms_Lit by auto
  from 3 obtain cw w2 where w2: "s2 = (cw # w2) @ s3" "is_ws cw" "\<forall>x \<in> set w2. is_ws x" "e3 = e2"
    unfolding in_ms_Plus_Cls by blast
  from 4 obtain fm e4' where fm: "(s4, e4') \<in> set (ms methodPath s3 e3)" "s3 = fm @ s4"
    "e4 = (2, fm) # e4'"
    unfolding in_ms_Grp by blast
  from in_ms_methodPath [OF fm(1)] fm(2) obtain c u d v where
    mp: "fm = c # u @ 0x2E # d # v" "is_id_start c" "\<forall>x \<in> set u. is_id_dot x" "is_id_start d"
      "\<forall>x \<in> set v. is_id_char x" "e4' = e3"
    by auto
  from 5 have lp: "s4 = js ''('' @ s5" "e5 = e4" unfolding in_ms_Lit by auto
  from 6 obtain cl loc where loc: "s5 = (cl # loc) @ s6" "not_rparen cl" "\<forall>x \<in> set loc. not_rparen x"
    "e6 = (3, cl # loc) # e5"
    unfolding in_ms_Grp in_ms_Plus_Cls by auto
  from 7 have rp: "s6 = js '')'' @ s7" "e7 = e6" unfolding in_ms_Lit by auto
  from 8 obtain w3 where w3: "s7 = w3 @ s8" "\<forall>x \<in> set w3. is_ws x" "e8 = e7"
    unfolding in_ms_Star_Cls by blast
  from 9 have eol: "s8 = []" "s' = []" "e' = e8" unfolding in_ms_Eol by auto
  have "line = w1 @ js ''at'' @ (cw # w2) @ fm @ js ''('' @ (cl # loc) @ js '')'' @ w3"
    using w1 at w2 fm lp loc rp w3 eol by simp
  moreover have "e' = [(3, cl # loc), (2, fm), (1, w1)]"
    using w1 at w2 fm mp lp loc rp w3 eol by simp
  moreover have "cw # w2 \<noteq> []" "\<forall>x \<in> set (cw # w2). is_ws x" "cl # loc \<noteq> []"
    "\<forall>x \<in> set (cl # loc). not_rparen x"
    using w2 loc by auto
  ultimately show ?thesis using w1 mp w3 eol by blast
qed

section \<open>The parser\<close>

lemma parseLoop_eq:
  "parseLoop ls acc = acc @ map parseStackTraceLine (filter (\<lambda>l. trim l \<noteq> []) ls)"
  by (induction ls arbitrary: acc) simp_all

lemma lines_parseStackTrace:
  "lines (parseStackTrace t) =
     map parseStackTraceLine (filter (\<lambda>l. trim l \<noteq> []) (splitLines t))"
  by (simp add: parseStackTrace_def parseLoop_eq Let_def)

lemma splitLines_no_newline: "l \<in> set (splitLines t) \<Longrightarrow> 0xA \<notin> set l"
proof (induction t arbitrary: l rule: splitLines.induct)
  case 1
  then show ?case by simp
next
  case (2 c cs)
  then show ?case
    by (auto split: if_splits list.splits)
qed

lemma type_known_iff: "type (parseStackTraceLine l) \<noteq> T_unknown \<longleftrightarrow> recognized l"
  by (simp add: parseStackTraceLine_def plainLine_def recognized_def STACK_TRACE_PATTERNS_def
      reTest_def Let_def split: option.splits)

lemma parseStackTraceLine_plain:
  "type (parseStackTraceLine line) \<noteq> T_at \<Longrightarrow>
     className (parseStackTraceLine line) = None \<and> methodName (parseStackTraceLine line) = None
     \<and> fileName (parseStackTraceLine line) = None
     \<and> lineNumber (parseStackTraceLine line) = None"
  by (simp add: parseStackTraceLine_def plainLine_def Let_def split: option.splits if_splits)

text \<open>
  Claim C7.  For every text \<open>t\<close>, \<open>parseStackTrace t\<close> is a result whose \<open>hasStackTrace\<close> is
  true exactly when one of its classified lines has a type other than \<open>unknown\<close>, which is
  the case exactly when a non-blank line of \<open>t\<close> matches one of the five line patterns.  The
  empty string gives the result with no lines and \<open>hasStackTrace = false\<close>.
\<close>

theorem C7_hasStackTrace_iff_known_line:
  "(hasStackTrace (parseStackTrace t)
      \<longleftrightarrow> (\<exists>l \<in> set (lines (parseStackTrace t)). type l \<noteq> T_unknown))
   \<and> (hasStackTrace (parseStackTrace t)
      \<longleftrightarrow> (\<exists>line \<in> set (splitLines t). trim line \<noteq> [] \<and> recognized line))
   \<and> parseStackTrace [] = \<lparr> lines = [], hasStackTrace = False, extractedText = [] \<rparr>"
proof -
  have a: "hasStackTrace (parseStackTrace t)
      \<longleftrightarrow> (\<exists>l \<in> set (lines (parseStackTrace t)). type l \<noteq> T_unknown)"
    by (simp add: parseStackTrace_def Let_def list_ex_iff)
  have b: "(\<exists>l \<in> set (lines (parseStackTrace t)). type l \<noteq> T_unknown)
      \<longleftrightarrow> (\<exists>line \<in> set (splitLines t). trim line \<noteq> [] \<and> recognized line)"
    unfolding lines_parseStackTrace using type_known_iff by auto
  have c: "parseStackTrace [] = \<lparr> lines = [], hasStackTrace = False, extractedText = [] \<rparr>"
    by (simp add: parseStackTrace_def trim_def)
  from a b c show ?thesis by simp
qed

theorem C7_witness:
  "\<not> hasStackTrace (parseStackTrace (js ''no trace''))
   \<and> \<not> (\<exists>l \<in> set (lines (parseStackTrace (js ''no trace''))). type l \<noteq> T_unknown)"
proof -
  have "\<not> hasStackTrace (parseStackTrace (js ''no trace''))"
    by (simp add: char_defs re_defs parse_defs)
  then show ?thesis
    using C7_hasStackTrace_iff_known_line [of "js ''no trace''"] by blast
qed

text \<open>
  Claim C8.  For every text \<open>t\<close>, \<open>parseStackTrace t\<close> splits \<open>t\<close> at its line boundaries (no
  piece contains a newline), drops the lines that are blank after trimming, classifies each
  remaining line, and keeps the classified lines in the order of the text; the field
  \<open>extractedText\<close> of the result is \<open>t\<close> itself.
\<close>

theorem C8_lines_in_order:
  "lines (parseStackTrace t) =
     map parseStackTraceLine (filter (\<lambda>l. trim l \<noteq> []) (splitLines t))
   \<and> (\<forall>l \<in> set (splitLines t). 0xA \<notin> set l)
   \<and> extractedText (parseStackTrace t) = t"
  using splitLines_no_newline [of _ t]
  by (auto simp: lines_parseStackTrace) (simp add: parseStackTrace_def Let_def)

theorem C8_witness:
  "map content (lines (parseStackTrace (js ''a'' @ [0xD, 0xA, 0x20, 0xA] @ js ''b'')))
     = [js ''a'', js ''b'']
   \<and> extractedText (parseStackTrace (js ''a'' @ [0xD, 0xA, 0x20, 0xA] @ js ''b''))
     = js ''a'' @ [0xD, 0xA, 0x20, 0xA] @ js ''b''"
proof -
  have s: "splitLines (js ''a'' @ [0xD, 0xA, 0x20, 0xA] @ js ''b'') = [js ''a'', [0x20], js ''b'']"
    by (simp add: js_def)
  have c: "content (parseStackTraceLine l) = l" for l
    by (simp add: parseStackTraceLine_def plainLine_def Let_def split: option.splits)
  show ?thesis
    using C8_lines_in_order [of "js ''a'' @ [0xD, 0xA, 0x20, 0xA] @ js ''b''"]
    by (simp add: s c trim_def is_ws_def js_def)
qed

text \<open>
  Claim C9.  A classified line whose type is not \<open>at\<close> has none of the fields \<open>className\<close>,
  \<open>methodName\<close>, \<open>fileName\<close> and \<open>lineNumber\<close>; this holds for the classifier and for every
  line of a parsed stack trace.
\<close>

theorem C9_frame_fields_only_on_frames:
  "(type (parseStackTraceLine line) \<noteq> T_at \<longrightarrow>
      className (parseStackTraceLine line) = None \<and> methodName (parseStackTraceLine line) = None
      \<and> fileName (parseStackTraceLine line) = None
      \<and> lineNumber (parseStackTraceLine line) = None)
   \<and> (\<forall>l \<in> set (lines (parseStackTrace t)). type l \<noteq> T_at \<longrightarrow>
      className l = None \<and> methodName l = None \<and> fileName l = None \<and> lineNumber l = None)"
  using parseStackTraceLine_plain by (auto simp: lines_parseStackTrace)

theorem C9_witness:
  "type (parseStackTraceLine (js ''... 15 more'')) = T_more
   \<and> className (parseStackTraceLine (js ''... 15 more'')) = None
   \<and> methodName (parseStackTraceLine (js ''... 15 more'')) = None
   \<and> fileName (parseStackTraceLine (js ''... 15 more'')) = None
   \<and> lineNumber (parseStackTraceLine (js ''... 15 more'')) = None"
proof -
  have "type (parseStackTraceLine (js ''... 15 more'')) = T_more"
    by (simp add: char_defs re_defs parse_defs)
  then show ?thesis
    using C9_frame_fields_only_on_frames [of "js ''... 15 more''" "[]"] by simp
qed

section \<open>Frames\<close>

lemma lastIndexOf_notin: "c \<notin> set v \<Longrightarrow> lastIndexOf c v = - 1"
  by (induction v) (auto simp: Let_def)

lemma lastIndexOf_nonneg: "c \<in> set v \<Longrightarrow> lastIndexOf c v \<ge> 0"
  by (induction v) (auto simp: Let_def)

lemma lastIndexOf_append: "c \<notin> set v \<Longrightarrow> lastIndexOf c (u @ c # v) = int (length u)"
  by (induction u) (auto simp: Let_def lastIndexOf_notin)

lemma splitMethod_dot:
  "0x2E \<notin> set v \<Longrightarrow> u \<noteq> [] \<Longrightarrow> splitMethod (u @ 0x2E # v) = (u, v)"
  by (simp add: splitMethod_def Let_def lastIndexOf_append)

lemma splitMethod_no_dot: "0x2E \<notin> set s \<Longrightarrow> splitMethod s = ([], s)"
  by (simp add: splitMethod_def Let_def lastIndexOf_notin)

lemma segments_dot:
  "0x2E \<notin> set v \<Longrightarrow> lastSegment (u @ 0x2E # v) = v \<and> beforeLastSegment (u @ 0x2E # v) = u"
  by (simp add: lastSegment_def beforeLastSegment_def takeWhile_append1 dropWhile_append1
      takeWhile_eq_all_conv dropWhile_eq_Nil_conv takeWhile_append dropWhile_append)

lemma id_start_not_dot: "is_id_start c \<Longrightarrow> c \<noteq> 0x2E"
  by (auto simp: is_id_start_def is_alpha_def)

lemma id_char_not_dot: "is_id_char c \<Longrightarrow> c \<noteq> 0x2E"
  by (auto simp: is_id_char_def is_alpha_def is_digit_def)

lemma reMatch_SomeD: "reMatch r s = Some m \<Longrightarrow> \<exists>s'. (s', m) \<in> set (ms r s [])"
  by (cases "ms r s []") (auto simp: reMatch_def) 

lemma reMatch_None_iff: "reMatch r s = None \<longleftrightarrow> set (ms r s []) = {}"
  by (cases "ms r s []") (auto simp: reMatch_def)

lemma grp_simps: "grp ((n, g) # e) k = (if k = n then g else grp e k)"
  by (simp add: grp_def)

lemma type_at_iff:
  "type (parseStackTraceLine line) = T_at
     \<longleftrightarrow> reMatch exception_re line = None \<and> reMatch at_re line \<noteq> None"
  by (auto simp: parseStackTraceLine_def plainLine_def Let_def split: option.splits)

lemma parseStackTraceLine_at:
  assumes "type (parseStackTraceLine line) = T_at"
  obtains m where "reMatch at_re line = Some m"
    "className (parseStackTraceLine line) = Some (fst (splitMethod (grp m 2)))"
    "methodName (parseStackTraceLine line) = Some (snd (splitMethod (grp m 2)))"
    "fileName (parseStackTraceLine line) = Some (fst (splitLocation (grp m 3)))"
    "lineNumber (parseStackTraceLine line) = snd (splitLocation (grp m 3))"
  using assms
  by (auto simp: parseStackTraceLine_def plainLine_def Let_def split: option.splits if_splits)

lemma frame_shape:
  assumes "type (parseStackTraceLine line) = T_at"
  obtains m w1 w2 c u d v loc w3 where
    "reMatch at_re line = Some m" "grp m 2 = (c # u) @ 0x2E # d # v" "grp m 3 = loc"
    "line = w1 @ js ''at'' @ w2 @ grp m 2 @ js ''('' @ loc @ js '')'' @ w3"
    "\<forall>x \<in> set w1. is_ws x" "w2 \<noteq> []" "\<forall>x \<in> set w2. is_ws x" "\<forall>x \<in> set w3. is_ws x"
    "is_id_start c" "\<forall>x \<in> set u. is_id_dot x" "0x2E \<notin> set (d # v)" "is_id_start d"
    "\<forall>x \<in> set v. is_id_char x"
    "loc \<noteq> []" "\<forall>x \<in> set loc. not_rparen x"
proof -
  from assms obtain m where m: "reMatch at_re line = Some m"
    by (auto simp: type_at_iff)
  from reMatch_SomeD [OF m] obtain s' where "(s', m) \<in> set (ms at_re line [])" ..
  from in_ms_at_re [OF this] obtain w1 w2 fm loc w3 c u d v where
    *: "line = w1 @ js ''at'' @ w2 @ fm @ js ''('' @ loc @ js '')'' @ w3"
    "m = [(3, loc), (2, fm), (1, w1)]"
    "\<forall>x \<in> set w1. is_ws x" "w2 \<noteq> []" "\<forall>x \<in> set w2. is_ws x"
    "fm = c # u @ 0x2E # d # v" "is_id_start c" "\<forall>x \<in> set u. is_id_dot x" "is_id_start d"
    "\<forall>x \<in> set v. is_id_char x" "loc \<noteq> []" "\<forall>x \<in> set loc. not_rparen x"
    "\<forall>x \<in> set w3. is_ws x"
    by blast
  have g: "grp m 2 = (c # u) @ 0x2E # d # v" "grp m 3 = loc"
    using * by (simp_all add: grp_simps)
  have nd: "0x2E \<notin> set (d # v)"
    using *(9) *(10) id_start_not_dot [of d] id_char_not_dot by fastforce
  show thesis
    using that [OF m g(1) g(2) _ *(3) *(4) *(5) *(13) *(7) *(8) nd *(9) *(10) *(11) *(12)] * g
    by simp
qed

lemma split_at_first_unique:
  "x \<notin> set a \<Longrightarrow> x \<notin> set b \<Longrightarrow> a @ x # c = b @ x # d \<Longrightarrow> a = b \<and> c = d"
proof (induction a arbitrary: b)
  case Nil
  then show ?case by (cases b) auto
next
  case (Cons y a)
  then show ?case by (cases b) auto
qed

lemma split_at_last_unique:
  assumes "u @ x # v = u' @ x # v'" "x \<notin> set v" "x \<notin> set v'"
  shows "u = u' \<and> v = v'"
proof -
  from assms(1) have "rev (u @ x # v) = rev (u' @ x # v')" by simp
  then have "rev v @ x # rev u = rev v' @ x # rev u'" by simp
  moreover have "x \<notin> set (rev v)" "x \<notin> set (rev v')" using assms by simp_all
  ultimately have "rev v = rev v' \<and> rev u = rev u'"
    by (intro split_at_first_unique)
  then show ?thesis by simp
qed

lemma digit_not_colon: "is_digit c \<Longrightarrow> c \<noteq> 0x3A"
  by (auto simp: is_digit_def)

lemma in_ms_location_re:
  "(s', e') \<in> set (ms location_re loc []) \<longleftrightarrow>
     s' = [] \<and> (\<exists>pre digs. loc = pre @ js '':'' @ digs \<and> pre \<noteq> [] \<and> (\<forall>x \<in> set pre. is_dot x)
        \<and> digs \<noteq> [] \<and> (\<forall>x \<in> set digs. is_digit x) \<and> e' = [(2, digs), (1, pre)])"
  (is "?L \<longleftrightarrow> ?R")
proof
  assume ?L
  then obtain s1 e1 s2 e2 s3 e3 where
    1: "(s1, e1) \<in> set (ms (Grp 1 (Plus (Cls is_dot))) loc [])" and
    2: "(s2, e2) \<in> set (ms (Lit (js '':'')) s1 e1)" and
    3: "(s3, e3) \<in> set (ms (Grp 2 (Plus (Cls is_digit))) s2 e2)" and
    4: "(s', e') \<in> set (ms Eol s3 e3)"
    unfolding location_re_def seqs.simps in_ms_Seq by auto
  from 1 obtain c pre where p: "loc = (c # pre) @ s1" "is_dot c" "\<forall>x \<in> set pre. is_dot x"
    "e1 = [(1, c # pre)]"
    unfolding in_ms_Grp in_ms_Plus_Cls by auto
  from 2 have l: "s1 = js '':'' @ s2" "e2 = e1" unfolding in_ms_Lit by auto
  from 3 obtain d digs where d: "s2 = (d # digs) @ s3" "is_digit d" "\<forall>x \<in> set digs. is_digit x"
    "e3 = (2, d # digs) # e2"
    unfolding in_ms_Grp in_ms_Plus_Cls by auto
  from 4 have e: "s3 = []" "s' = []" "e' = e3" unfolding in_ms_Eol by auto
  have "loc = (c # pre) @ js '':'' @ (d # digs)" using p l d e by simp
  moreover have "e' = [(2, d # digs), (1, c # pre)]" using p l d e by simp
  moreover have "\<forall>x \<in> set (c # pre). is_dot x" "\<forall>x \<in> set (d # digs). is_digit x"
    using p d by auto
  ultimately show ?R using e by blast
next
  assume ?R
  then obtain pre digs where r: "s' = []" "loc = pre @ js '':'' @ digs" "pre \<noteq> []"
    "\<forall>x \<in> set pre. is_dot x" "digs \<noteq> []" "\<forall>x \<in> set digs. is_digit x"
    "e' = [(2, digs), (1, pre)]"
    by blast
  from r(3) obtain c pre' where c: "pre = c # pre'" by (cases pre) auto
  from r(5) obtain d digs' where d: "digs = d # digs'" by (cases digs) auto
  have 1: "(js '':'' @ digs, [(1, pre)]) \<in> set (ms (Grp 1 (Plus (Cls is_dot))) loc [])"
    unfolding in_ms_Grp in_ms_Plus_Cls using r c by auto
  have 2: "(digs, [(1, pre)]) \<in> set (ms (Lit (js '':'')) (js '':'' @ digs) [(1, pre)])"
    unfolding in_ms_Lit by simp
  have 3: "([], [(2, digs), (1, pre)]) \<in> set (ms (Grp 2 (Plus (Cls is_digit))) digs [(1, pre)])"
    unfolding in_ms_Grp in_ms_Plus_Cls using r d by auto
  have 4: "([], [(2, digs), (1, pre)]) \<in> set (ms Eol [] [(2, digs), (1, pre)])"
    unfolding in_ms_Eol by simp
  show ?L
    unfolding location_re_def seqs.simps in_ms_Seq using 1 2 3 4 r(1) r(7) by blast
qed

lemma splitLocation_match:
  assumes "loc = pre @ js '':'' @ digs" "pre \<noteq> []" "\<forall>x \<in> set pre. is_dot x" "digs \<noteq> []"
    "\<forall>x \<in> set digs. is_digit x"
  shows "splitLocation loc = (pre, Some (parseInt digs))"
proof -
  have in1: "([], [(2, digs), (1, pre)]) \<in> set (ms location_re loc [])"
    unfolding in_ms_location_re using assms by blast
  then obtain m where m: "reMatch location_re loc = Some m"
    by (cases "reMatch location_re loc") (auto simp: reMatch_None_iff)
  from reMatch_SomeD [OF m] obtain s' where "(s', m) \<in> set (ms location_re loc [])" ..
  then obtain pre' digs' where p: "loc = pre' @ js '':'' @ digs'" "\<forall>x \<in> set digs'. is_digit x"
    "m = [(2, digs'), (1, pre')]"
    unfolding in_ms_location_re by blast
  have "pre @ 0x3A # digs = pre' @ 0x3A # digs'"
    using assms(1) p(1) by (simp add: js_def)
  moreover have "0x3A \<notin> set digs" "0x3A \<notin> set digs'"
    using assms(5) p(2) digit_not_colon by blast+
  ultimately have "pre = pre' \<and> digs = digs'" by (rule split_at_last_unique)
  with p m show ?thesis by (simp add: splitLocation_def grp_simps)
qed

lemma splitLocation_no_match:
  assumes "\<not> (\<exists>pre digs. loc = pre @ js '':'' @ digs \<and> pre \<noteq> [] \<and> (\<forall>x \<in> set pre. is_dot x)
        \<and> digs \<noteq> [] \<and> (\<forall>x \<in> set digs. is_digit x))"
  shows "splitLocation loc = (loc, None)"
proof -
  have "ms location_re loc [] = []"
  proof (cases "ms location_re loc []")
    case Nil
    then show ?thesis .
  next
    case (Cons p ps)
    then have "(fst p, snd p) \<in> set (ms location_re loc [])" by simp
    then have False unfolding in_ms_location_re using assms by blast
    then show ?thesis ..
  qed
  then have "reMatch location_re loc = None" by (simp add: reMatch_def)
  then show ?thesis by (simp add: splitLocation_def)
qed

lemma id_start_id_dot: "is_id_start c \<Longrightarrow> is_id_dot c"
  by (auto simp: is_id_start_def is_id_dot_def is_id_char_def)

lemma foldl_decimalValue:
  "foldl (\<lambda>n d. 10 * n + (unat d - 48)) a ds = a * 10 ^ length ds + decimalValue ds"
  by (induction ds arbitrary: a) (simp_all add: algebra_simps)

lemma parseInt_decimalValue: "parseInt ds = roundToDouble (decimalValue ds)"
  by (simp add: parseInt_def foldl_decimalValue)

lemma less_bitLength: "n < 2 ^ bitLength n"
proof (induction n rule: bitLength.induct)
  case (1 n)
  show ?case
  proof (cases "n = 0")
    case True
    then show ?thesis by (subst bitLength.simps) simp
  next
    case False
    from 1 [OF False] have "n div 2 < 2 ^ bitLength (n div 2)" .
    then have "n < 2 * 2 ^ bitLength (n div 2)" by linarith
    with False show ?thesis by (subst bitLength.simps) simp
  qed
qed

lemma bitLength_le: "n \<noteq> 0 \<Longrightarrow> 2 ^ (bitLength n - 1) \<le> n"
proof (induction n rule: bitLength.induct)
  case (1 n)
  show ?case
  proof (cases "n div 2 = 0")
    case True
    with 1(2) have "n = 1" by linarith
    then show ?thesis by (subst bitLength.simps, subst bitLength.simps) simp
  next
    case False
    from 1(1) [OF 1(2) False] have ih: "2 ^ (bitLength (n div 2) - 1) \<le> n div 2" .
    from False have "bitLength (n div 2) \<noteq> 0" by (subst bitLength.simps) simp
    then have "bitLength (n div 2) = Suc (bitLength (n div 2) - 1)" by simp
    then have "(2::nat) ^ bitLength (n div 2) = 2 * 2 ^ (bitLength (n div 2) - 1)"
      by (metis power_Suc)
    with ih have "2 ^ bitLength (n div 2) \<le> n" by linarith
    with 1(2) show ?thesis by (subst bitLength.simps) simp
  qed
qed

lemma roundToDouble_exact: "v < 2 ^ 53 \<Longrightarrow> roundToDouble v = Finite v"
  by (simp add: roundToDouble_def)

lemma roundToDouble_parts:
  assumes "\<not> v < 2 ^ 53"
  defines "e \<equiv> bitLength v - 53"
  shows "2 ^ 52 \<le> v div 2 ^ e" "v div 2 ^ e < 2 ^ 53" "bitLength v = e + 53"
proof -
  have b: "53 < bitLength v"
  proof (rule ccontr)
    assume "\<not> 53 < bitLength v"
    then have "(2::nat) ^ bitLength v \<le> 2 ^ 53" by (intro power_increasing) auto
    with less_bitLength [of v] assms(1) show False by linarith
  qed
  then show bl: "bitLength v = e + 53" by (simp add: e_def)
  have "v < 2 ^ (e + 53)" using less_bitLength [of v] bl by simp
  then have "v < 2 ^ 53 * 2 ^ e" by (simp add: power_add mult.commute)
  then show "v div 2 ^ e < 2 ^ 53" by (simp add: less_mult_imp_div_less)
  have "v \<noteq> 0" using assms(1) by auto
  from bitLength_le [OF this] bl have "2 ^ (52 + e) \<le> v" by simp
  then have "2 ^ 52 * 2 ^ e \<le> v" by (simp only: power_add)
  then show "2 ^ 52 \<le> v div 2 ^ e"
    by (metis div_le_mono div_mult_self_is_m zero_less_numeral zero_less_power)
qed

lemma roundToDouble_nearest:
  assumes "roundToDouble v = Finite d"
  shows "\<exists>m e. d = m * 2 ^ e \<and> m \<le> 2 ^ 53 \<and> (2 ^ 53 \<le> v \<longrightarrow> 2 ^ 52 \<le> m)
    \<and> 2 * (d - v) \<le> 2 ^ e \<and> 2 * (v - d) \<le> 2 ^ e"
proof (cases "v < 2 ^ 53")
  case True
  with assms have "d = v" by (simp add: roundToDouble_def)
  with True show ?thesis by (intro exI [of _ v] exI [of _ 0]) simp
next
  case False
  define e where "e = bitLength v - 53"
  define q where "q = v div 2 ^ e"
  define r where "r = v mod 2 ^ e"
  define m where "m = (if 2 ^ e < 2 * r \<or> (2 * r = 2 ^ e \<and> odd q) then q + 1 else q)"
  from roundToDouble_parts [OF False] have q: "2 ^ 52 \<le> q" "q < 2 ^ 53"
    by (simp_all add: q_def e_def)
  have v: "v = q * 2 ^ e + r" unfolding q_def r_def by (rule div_mult_mod_eq [symmetric])
  have r: "r < 2 ^ e" by (simp add: r_def)
  have eq: "roundToDouble v = (if 2 ^ 1024 \<le> m * 2 ^ e then Infinity else Finite (m * 2 ^ e))"
    unfolding roundToDouble_def Let_def m_def q_def r_def e_def by (simp only: False if_False)
  have d: "d = m * 2 ^ e"
  proof (cases "2 ^ 1024 \<le> m * 2 ^ e")
    case True
    with eq have "roundToDouble v = Infinity" by (simp only: if_True)
    with assms show ?thesis by simp
  next
    case False
    with eq have "roundToDouble v = Finite (m * 2 ^ e)" by (simp only: if_False)
    with assms show ?thesis by simp
  qed
  have m: "m \<le> 2 ^ 53" "2 ^ 52 \<le> m" using q by (simp_all add: m_def)
  have "2 * (d - v) \<le> 2 ^ e \<and> 2 * (v - d) \<le> 2 ^ e"
  proof (cases "2 ^ e < 2 * r \<or> (2 * r = 2 ^ e \<and> odd q)")
    case True
    then have "d = q * 2 ^ e + 2 ^ e" by (simp add: d m_def algebra_simps)
    with v r True show ?thesis by auto
  next
    case f: False
    then have "d = q * 2 ^ e" by (simp add: d m_def)
    with v r f show ?thesis by auto
  qed
  with d m show ?thesis by blast
qed

lemma roundToDouble_Infinity_iff: "roundToDouble u = Infinity \<longleftrightarrow> 2 ^ 1024 \<le> u + 2 ^ 970"
proof -
  define K :: nat where "K = 2 ^ 970"
  have K: "0 < K" by (simp add: K_def)
  have t: "(2::nat) ^ 1024 = 2 ^ 54 * K" unfolding K_def by simp
  show ?thesis
  proof (cases "u < 2 ^ 53")
    case True
    then have "roundToDouble u = Finite u" by (rule roundToDouble_exact)
    moreover have "u + K < 2 ^ 54 * K" using True K by (cases K) simp_all
    ultimately show ?thesis unfolding t K_def [symmetric] by simp
  next
    case False
    define e where "e = bitLength u - 53"
    define q where "q = u div 2 ^ e"
    define r where "r = u mod 2 ^ e"
    define m where "m = (if 2 ^ e < 2 * r \<or> (2 * r = 2 ^ e \<and> odd q) then q + 1 else q)"
    define E :: nat where "E = 2 ^ e"
    from roundToDouble_parts [OF False] have q: "2 ^ 52 \<le> q" "q < 2 ^ 53"
      by (simp_all add: q_def e_def)
    have u: "u = q * E + r" unfolding q_def r_def E_def by (rule div_mult_mod_eq [symmetric])
    have r: "r < E" by (simp add: r_def E_def)
    have eq: "roundToDouble u = (if 2 ^ 1024 \<le> m * 2 ^ e then Infinity else Finite (m * 2 ^ e))"
      unfolding roundToDouble_def Let_def m_def q_def r_def e_def by (simp only: False if_False)
    have inf: "roundToDouble u = Infinity \<longleftrightarrow> 2 ^ 54 * K \<le> m * E"
    proof (cases "2 ^ 1024 \<le> m * 2 ^ e")
      case True
      with eq have "roundToDouble u = Infinity" by (simp only: if_True)
      with True show ?thesis unfolding t E_def by simp
    next
      case f: False
      with eq have "roundToDouble u = Finite (m * 2 ^ e)" by (simp only: if_False)
      with f show ?thesis unfolding t E_def by simp
    qed
    have m: "q \<le> m" "m \<le> 2 ^ 53" using q by (simp_all add: m_def)
    have md: "m = (if E < 2 * r \<or> (2 * r = E \<and> odd q) then q + 1 else q)"
      by (simp add: m_def E_def)
    consider "e < 971" | "e = 971" | "971 < e" by linarith
    then have "2 ^ 54 * K \<le> m * E \<longleftrightarrow> 2 ^ 54 * K \<le> u + K"
    proof cases
      case 1
      then have "(2::nat) ^ e \<le> 2 ^ 970" by (intro power_increasing) auto
      then have EK: "E \<le> K" by (simp add: E_def K_def)
      have "m * E \<le> 2 ^ 53 * K" using m(2) EK by (rule mult_le_mono)
      moreover have "q * E \<le> 2 ^ 53 * K" using q(2) EK by (intro mult_le_mono) auto
      ultimately show ?thesis using u r EK K by auto
    next
      case 3
      then have "(2::nat) ^ 972 \<le> 2 ^ e" by (intro power_increasing) auto
      moreover have "(2::nat) ^ 972 = 4 * K" by (simp add: K_def)
      ultimately have EK: "4 * K \<le> E" by (simp add: E_def)
      have "2 ^ 52 * (4 * K) \<le> q * E" using q(1) EK by (rule mult_le_mono)
      then have a: "2 ^ 54 * K \<le> q * E" by simp
      have b: "q * E \<le> m * E" using m(1) by (rule mult_le_mono1)
      from a b have "2 ^ 54 * K \<le> m * E" by (rule order_trans)
      moreover from a have "2 ^ 54 * K \<le> u + K" unfolding u by linarith
      ultimately show ?thesis by simp
    next
      case 2
      have e: "E = 2 * K" unfolding 2 K_def E_def by simp
      have "2 ^ 54 * K \<le> m * E \<longleftrightarrow> 2 ^ 53 \<le> m"
        unfolding e using K by simp
      also have "\<dots> \<longleftrightarrow> q + 1 = 2 ^ 53 \<and> K \<le> r"
        using q r unfolding md e by auto
      also have "\<dots> \<longleftrightarrow> 2 ^ 54 * K \<le> q * (2 * K) + r + K"
      proof
        assume "q + 1 = 2 ^ 53 \<and> K \<le> r"
        then have "q = 2 ^ 53 - 1" "K \<le> r" by simp_all
        then show "2 ^ 54 * K \<le> q * (2 * K) + r + K" by simp
      next
        assume a: "2 ^ 54 * K \<le> q * (2 * K) + r + K"
        have qq: "q + 1 = 2 ^ 53"
        proof (rule ccontr)
          assume "q + 1 \<noteq> 2 ^ 53"
          with q(2) have "q \<le> 2 ^ 53 - 2" by simp
          then have "q * (2 * K) \<le> (2 ^ 53 - 2) * (2 * K)" by (rule mult_le_mono1)
          then have "q * (2 * K) + 4 * K \<le> 2 ^ 54 * K" by (simp add: algebra_simps)
          moreover from r e have "r + K < 3 * K" by simp
          ultimately show False using a by linarith
        qed
        then have "q = 2 ^ 53 - 1" by simp
        with a have "K \<le> r" by simp
        with qq show "q + 1 = 2 ^ 53 \<and> K \<le> r" by simp
      qed
      finally show ?thesis unfolding u e by simp
    qed
    with inf show ?thesis unfolding t K_def [symmetric] by simp
  qed
qed

text \<open>
  Claim C2.  A line that is classified as a frame consists of white space, \<open>at\<close>, white
  space, a dotted method path, and a location in parentheses.  The last segment of the path
  is \<open>methodName\<close>, and what stands before its last dot is \<open>className\<close> (the source gives
  the empty string for a path without a dot).  A location \<open><anything>:<digits>\<close> gives the
  prefix as \<open>fileName\<close>, and \<open>lineNumber\<close> is the number that stands for the value of the
  digits: the value itself when it is below \<open>2 ^ 53\<close>, and otherwise a nearest number
  \<open>m * 2 ^ e\<close> with 53 binary digits in \<open>m\<close>, or \<open>Infinity\<close> for a value of at least
  \<open>2 ^ 1024 - 2 ^ 970\<close>, which is half way from the greatest finite number to \<open>2 ^ 1024\<close>.
  Any other location is \<open>fileName\<close> as a whole, and \<open>lineNumber\<close> is absent.
  The line \<open>\tat com.example.MyClass.myMethod(MyClass.java:25)\<close> is parsed as the claim says.
\<close>

theorem C2_frame_parsing:
  "(type (parseStackTraceLine line) = T_at \<longrightarrow>
      (\<exists>w1 w2 fullMethod location w3.
         line = w1 @ js ''at'' @ w2 @ fullMethod @ js ''('' @ location @ js '')'' @ w3
         \<and> (\<forall>x \<in> set w1. is_ws x) \<and> w2 \<noteq> [] \<and> (\<forall>x \<in> set w2. is_ws x)
         \<and> (\<forall>x \<in> set w3. is_ws x)
         \<and> (\<forall>x \<in> set fullMethod. is_id_dot x)
         \<and> location \<noteq> [] \<and> (\<forall>x \<in> set location. x \<noteq> 0x29)
         \<and> methodName (parseStackTraceLine line) = Some (lastSegment fullMethod)
         \<and> className (parseStackTraceLine line) = Some (beforeLastSegment fullMethod)
         \<and> (\<forall>pre digs. numberedLocation location pre digs \<longrightarrow>
               fileName (parseStackTraceLine line) = Some pre
               \<and> lineNumber (parseStackTraceLine line)
                   = Some (roundToDouble (decimalValue digs)))
         \<and> ((\<forall>pre digs. \<not> numberedLocation location pre digs) \<longrightarrow>
               fileName (parseStackTraceLine line) = Some location
               \<and> lineNumber (parseStackTraceLine line) = None)))
   \<and> (0x2E \<notin> set s \<longrightarrow> splitMethod s = ([], s))
   \<and> (v < 2 ^ 53 \<longrightarrow> roundToDouble v = Finite v)
   \<and> (roundToDouble w = Finite d \<longrightarrow>
        (\<exists>m e. d = m * 2 ^ e \<and> m \<le> 2 ^ 53 \<and> (2 ^ 53 \<le> w \<longrightarrow> 2 ^ 52 \<le> m)
           \<and> 2 * (d - w) \<le> 2 ^ e \<and> 2 * (w - d) \<le> 2 ^ e))
   \<and> (roundToDouble u = Infinity \<longleftrightarrow> 2 ^ 1024 \<le> u + 2 ^ 970)
   \<and> parseStackTraceLine (0x9 # js ''at com.example.MyClass.myMethod(MyClass.java:25)'') =
       \<lparr> type = T_at, content = 0x9 # js ''at com.example.MyClass.myMethod(MyClass.java:25)'',
         className = Some (js ''com.example.MyClass''), methodName = Some (js ''myMethod''),
         fileName = Some (js ''MyClass.java''), lineNumber = Some (Finite 25), indent = 1 \<rparr>"
proof (intro conjI impI)
  assume at: "type (parseStackTraceLine line) = T_at"
  show "\<exists>w1 w2 fullMethod location w3.
         line = w1 @ js ''at'' @ w2 @ fullMethod @ js ''('' @ location @ js '')'' @ w3
         \<and> (\<forall>x \<in> set w1. is_ws x) \<and> w2 \<noteq> [] \<and> (\<forall>x \<in> set w2. is_ws x)
         \<and> (\<forall>x \<in> set w3. is_ws x)
         \<and> (\<forall>x \<in> set fullMethod. is_id_dot x)
         \<and> location \<noteq> [] \<and> (\<forall>x \<in> set location. x \<noteq> 0x29)
         \<and> methodName (parseStackTraceLine line) = Some (lastSegment fullMethod)
         \<and> className (parseStackTraceLine line) = Some (beforeLastSegment fullMethod)
         \<and> (\<forall>pre digs. numberedLocation location pre digs \<longrightarrow>
               fileName (parseStackTraceLine line) = Some pre
               \<and> lineNumber (parseStackTraceLine line)
                   = Some (roundToDouble (decimalValue digs)))
         \<and> ((\<forall>pre digs. \<not> numberedLocation location pre digs) \<longrightarrow>
               fileName (parseStackTraceLine line) = Some location
               \<and> lineNumber (parseStackTraceLine line) = None)"
  proof (rule frame_shape [OF at])
  fix m w1 w2 c u d v loc w3
  assume f: "reMatch at_re line = Some m" "grp m 2 = (c # u) @ 0x2E # d # v" "grp m 3 = loc"
    "line = w1 @ js ''at'' @ w2 @ grp m 2 @ js ''('' @ loc @ js '')'' @ w3"
    "\<forall>x \<in> set w1. is_ws x" "w2 \<noteq> []" "\<forall>x \<in> set w2. is_ws x" "\<forall>x \<in> set w3. is_ws x"
    "is_id_start c" "\<forall>x \<in> set u. is_id_dot x" "0x2E \<notin> set (d # v)" "is_id_start d"
    "\<forall>x \<in> set v. is_id_char x"
    "loc \<noteq> []" "\<forall>x \<in> set loc. not_rparen x"
  from parseStackTraceLine_at [OF at] f(1) have p:
    "className (parseStackTraceLine line) = Some (fst (splitMethod (grp m 2)))"
    "methodName (parseStackTraceLine line) = Some (snd (splitMethod (grp m 2)))"
    "fileName (parseStackTraceLine line) = Some (fst (splitLocation loc))"
    "lineNumber (parseStackTraceLine line) = snd (splitLocation loc)"
    using f(3) by auto
  have sm: "splitMethod (grp m 2) = (c # u, d # v)"
    unfolding f(2) using f(11) by (intro splitMethod_dot) auto
  have seg: "lastSegment (grp m 2) = d # v" "beforeLastSegment (grp m 2) = c # u"
    unfolding f(2) using segments_dot [OF f(11), of "c # u"] by simp_all
  have idd: "\<forall>x \<in> set (grp m 2). is_id_dot x"
    unfolding f(2) using f(9) f(10) f(12) f(13)
    by (auto simp: is_id_dot_def is_id_char_def is_id_start_def)
  have l1: "\<forall>pre digs. numberedLocation loc pre digs \<longrightarrow>
      fileName (parseStackTraceLine line) = Some pre
      \<and> lineNumber (parseStackTraceLine line) = Some (roundToDouble (decimalValue digs))"
    unfolding numberedLocation_def p parseInt_decimalValue [symmetric]
    using splitLocation_match [of loc] by auto
  have l2: "(\<forall>pre digs. \<not> numberedLocation loc pre digs) \<longrightarrow>
      fileName (parseStackTraceLine line) = Some loc \<and> lineNumber (parseStackTraceLine line) = None"
    unfolding numberedLocation_def p using splitLocation_no_match [of loc] by auto
  have np: "\<forall>x \<in> set loc. x \<noteq> 0x29" using f(15) by (simp add: not_rparen_def)
  show ?thesis
    apply (rule exI [of _ w1], rule exI [of _ w2], rule exI [of _ "grp m 2"],
        rule exI [of _ loc], rule exI [of _ w3])
    using f(4) f(5) f(6) f(7) f(8) f(14) idd np p(1) p(2) sm seg l1 l2 by simp
  qed
next
  assume "0x2E \<notin> set s"
  then show "splitMethod s = ([], s)" by (rule splitMethod_no_dot)
next
  assume "v < 2 ^ 53"
  then show "roundToDouble v = Finite v" by (rule roundToDouble_exact)
next
  assume "roundToDouble w = Finite d"
  then show "\<exists>m e. d = m * 2 ^ e \<and> m \<le> 2 ^ 53 \<and> (2 ^ 53 \<le> w \<longrightarrow> 2 ^ 52 \<le> m)
           \<and> 2 * (d - w) \<le> 2 ^ e \<and> 2 * (w - d) \<le> 2 ^ e"
    by (rule roundToDouble_nearest)
next
  show "roundToDouble u = Infinity \<longleftrightarrow> 2 ^ 1024 \<le> u + 2 ^ 970"
    by (rule roundToDouble_Infinity_iff)
next
  show "parseStackTraceLine (0x9 # js ''at com.example.MyClass.myMethod(MyClass.java:25)'') =
       \<lparr> type = T_at, content = 0x9 # js ''at com.example.MyClass.myMethod(MyClass.java:25)'',
         className = Some (js ''com.example.MyClass''), methodName = Some (js ''myMethod''),
         fileName = Some (js ''MyClass.java''), lineNumber = Some (Finite 25), indent = 1 \<rparr>"
    by (simp add: char_defs re_defs parse_defs)
qed

theorem C2_witness:
  "type (parseStackTraceLine (js ''at a.b(c:12)'')) = T_at
   \<and> className (parseStackTraceLine (js ''at a.b(c:12)'')) = Some (js ''a'')
   \<and> methodName (parseStackTraceLine (js ''at a.b(c:12)'')) = Some (js ''b'')
   \<and> fileName (parseStackTraceLine (js ''at a.b(c:12)'')) = Some (js ''c'')
   \<and> lineNumber (parseStackTraceLine (js ''at a.b(c:12)'')) = Some (Finite 12)
   \<and> numberedLocation (js ''c:12'') (js ''c'') (js ''12'')
   \<and> decimalValue (js ''12'') = 12
   \<and> roundToDouble 12 = Finite 12
   \<and> roundToDouble 9007199254740995 = Finite 9007199254740996
   \<and> roundToDouble (2 ^ 1024) = Infinity
   \<and> fileName (parseStackTraceLine (js ''at a.b(Native Method)'')) = Some (js ''Native Method'')
   \<and> lineNumber (parseStackTraceLine (js ''at a.b(Native Method)'')) = None
   \<and> splitMethod (js ''main'') = ([], js ''main'')"
proof -
  have a: "parseStackTraceLine (js ''at a.b(c:12)'') =
      \<lparr> type = T_at, content = js ''at a.b(c:12)'', className = Some (js ''a''),
        methodName = Some (js ''b''), fileName = Some (js ''c''), lineNumber = Some (Finite 12),
        indent = 0 \<rparr>"
    by (simp add: char_defs re_defs parse_defs)
  have b: "parseStackTraceLine (js ''at a.b(Native Method)'') =
      \<lparr> type = T_at, content = js ''at a.b(Native Method)'', className = Some (js ''a''),
        methodName = Some (js ''b''), fileName = Some (js ''Native Method''), lineNumber = None,
        indent = 0 \<rparr>"
    by (simp add: char_defs re_defs parse_defs)
  have n: "numberedLocation (js ''c:12'') (js ''c'') (js ''12'')" "decimalValue (js ''12'') = 12"
    by (simp_all add: numberedLocation_def char_defs)
  have w: "roundToDouble 9007199254740995 = Finite 9007199254740996"
    "roundToDouble (2 ^ 1024) = Infinity"
    by (simp_all add: roundToDouble_def bitLength.simps Let_def)
  have d: "0x2E \<notin> set (js ''main'')"
    by (simp add: js_def)
  have r: "roundToDouble 12 = Finite 12" "splitMethod (js ''main'') = ([], js ''main'')"
    using C2_frame_parsing [where line = "js ''at a.b(c:12)''" and s = "js ''main''" and v = 12
        and w = 9007199254740995 and d = 9007199254740996 and u = "2 ^ 1024"] a w d
    by simp_all
  from a b n w r show ?thesis by simp
qed

theorem C2_counterexample:
  "decimalValue (js ''9007199254740993'') = 9007199254740993
   \<and> lineNumber (parseStackTraceLine (js ''at a.b(c:9007199254740993)''))
       = Some (Finite 9007199254740992)"
  by (simp add: char_defs re_defs parse_defs bitLength.simps Let_def)

text \<open>
  Claim C10.  For every line that is classified as a frame, \<open>className\<close> and \<open>methodName\<close>
  are non-empty strings, and the dotted method path that the frame pattern captured contains
  a dot.
\<close>

theorem C10_frame_names_nonempty:
  assumes "type (parseStackTraceLine line) = T_at"
  shows "\<exists>c m fullMethod. className (parseStackTraceLine line) = Some c \<and> c \<noteq> []
     \<and> methodName (parseStackTraceLine line) = Some m \<and> m \<noteq> []
     \<and> map_option (\<lambda>am. grp am 2) (reMatch at_re line) = Some fullMethod
     \<and> 0x2E \<in> set fullMethod"
proof -
  from frame_shape [OF assms] obtain m c u d v where
    m: "reMatch at_re line = Some m" "grp m 2 = (c # u) @ 0x2E # d # v" "0x2E \<notin> set (d # v)"
    by metis
  from parseStackTraceLine_at [OF assms] m(1) have
    "className (parseStackTraceLine line) = Some (fst (splitMethod (grp m 2)))"
    "methodName (parseStackTraceLine line) = Some (snd (splitMethod (grp m 2)))"
    by auto
  moreover have "splitMethod (grp m 2) = (c # u, d # v)"
    unfolding m(2) using m(3) by (intro splitMethod_dot) auto
  ultimately show ?thesis using m(1) m(2) by simp
qed

theorem C10_witness:
  "type (parseStackTraceLine (js ''at a.b(c)'')) = T_at
   \<and> className (parseStackTraceLine (js ''at a.b(c)'')) = Some (js ''a'')
   \<and> methodName (parseStackTraceLine (js ''at a.b(c)'')) = Some (js ''b'')"
proof -
  have "parseStackTraceLine (js ''at a.b(c)'') =
      \<lparr> type = T_at, content = js ''at a.b(c)'', className = Some (js ''a''),
        methodName = Some (js ''b''), fileName = Some (js ''c''), lineNumber = None,
        indent = 0 \<rparr>"
    by (simp add: char_defs re_defs parse_defs)
  then show ?thesis
    using C10_frame_names_nonempty [of "js ''at a.b(c)''"] by simp
qed

section \<open>Termination of the extraction and the rendered markup\<close>

lemma ms_minlen: "(s', e') \<in> set (ms r s e) \<Longrightarrow> length s' + minlen r \<le> length s"
proof (induction r s e arbitrary: s' e' rule: ms.induct)
  case (1 s e)
  then show ?case by (simp add: in_ms_Eps)
next
  case (2 P s e)
  then show ?case by (auto simp: in_ms_Cls)
next
  case (3 l s e)
  then show ?case by (auto simp: in_ms_Lit)
next
  case (4 a b s e)
  from "4.prems" obtain s1 e1 where 1: "(s1, e1) \<in> set (ms a s e)" and 2: "(s', e') \<in> set (ms b s1 e1)"
    unfolding in_ms_Seq by blast
  from "4.IH"(1) [OF 1] have "length s1 + minlen a \<le> length s" .
  moreover from "4.IH"(2) [OF 1] 2 have "length s' + minlen b \<le> length s1" by fastforce
  ultimately show ?case by simp
next
  case (5 a b s e)
  from "5.prems" consider "(s', e') \<in> set (ms a s e)" | "(s', e') \<in> set (ms b s e)"
    by (auto simp: in_ms_Alt)
  then show ?case
  proof cases
    case 1
    from "5.IH"(1) [OF 1] show ?thesis by (simp add: min_def)
  next
    case 2
    from "5.IH"(2) [OF 2] show ?thesis by (simp add: min_def)
  qed
next
  case (6 r s e)
  from "6.prems" consider "s' = s" | s1 e1 where "(s1, e1) \<in> set (ms r s e)" "length s1 < length s"
      "(s', e') \<in> set (ms (Star r) s1 e1)"
    using in_ms_Star [of s' e' r s e] by blast
  then show ?case
  proof cases
    case 1
    then show ?thesis by simp
  next
    case 2
    from "6.IH"(2) [OF 2(1)] 2 have "length s' + minlen (Star r) \<le> length s1" by fastforce
    with 2(2) show ?thesis by simp
  qed
next
  case (7 n r s e)
  then show ?case by (auto simp: in_ms_Grp)
next
  case (8 s e)
  then show ?case by (auto simp: in_ms_Eol)
qed

lemma ms_hd_minlen:
  assumes "ms r s e = p # ps"
  shows "length (fst p) + minlen r \<le> length s"
proof -
  from assms have "(fst p, snd p) \<in> set (ms r s e)" by simp
  then show ?thesis by (rule ms_minlen)
qed

lemma search_bounds:
  "0 < minlen r \<Longrightarrow> search r i s = Some (idx, en, c) \<Longrightarrow> i \<le> idx \<and> idx < en \<and> en \<le> i + length s"
proof (induction s arbitrary: i)
  case Nil
  then show ?case
    by (cases "ms r [] []") (auto dest: ms_hd_minlen)
next
  case (Cons x xs)
  show ?case
  proof (cases "ms r (x # xs) []")
    case Nil
    with Cons.prems have "search r (Suc i) xs = Some (idx, en, c)" by simp
    from Cons.IH [OF Cons.prems(1) this] show ?thesis by simp
  next
    case (Cons p ps)
    from ms_hd_minlen [OF this] Cons.prems(1) have "length (fst p) < length (x # xs)" by simp
    with Cons Cons.prems show ?thesis by auto
  qed
qed

lemma exec_bounds:
  "0 < minlen r \<Longrightarrow> exec r input li = Some (idx, en, c) \<Longrightarrow> li < en \<and> en \<le> length input"
  using search_bounds [of r li "drop li input" idx en c]
  by (auto simp: exec_def split: if_splits)

lemma execLoop_total:
  assumes "0 < minlen r"
  shows "execLoop r body input li \<noteq> None"
proof (induction "Suc (length input) - li" arbitrary: li rule: less_induct)
  case less
  show ?case
  proof (cases "exec r input li")
    case None
    then show ?thesis by (subst execLoop.simps) simp
  next
    case (Some m)
    obtain idx en c where m: "m = (idx, en, c)" by (cases m) auto
    from exec_bounds [OF assms] Some m have b: "li < en" "en \<le> length input" by auto
    show ?thesis
    proof (cases "body m")
      case None
      from b have "Suc (length input) - en < Suc (length input) - li" by simp
      from less [OF this] have "execLoop r body input en \<noteq> None" .
      with Some None m show ?thesis by (subst execLoop.simps) simp
    next
      case (Some res)
      with \<open>exec r input li = Some m\<close> show ?thesis by (subst execLoop.simps) simp
    qed
  qed
qed

lemma patternsLoop_total:
  "\<forall>r \<in> set ps. 0 < minlen r \<Longrightarrow> patternsLoop ps body input \<noteq> None"
proof (induction ps)
  case Nil
  show ?case by simp
next
  case (Cons p ps)
  then have "execLoop p body input 0 \<noteq> None" by (simp add: execLoop_total)
  with Cons show ?case by (auto split: option.splits)
qed

lemma minlen_Plus: "minlen (Plus r) = minlen r"
  by (simp add: Plus_def)

lemma minlen_patterns:
  "0 < minlen quotedStringPattern"
  "\<forall>r \<in> set incompletePatterns. 0 < minlen r"
  "\<forall>r \<in> set escapedPatterns. 0 < minlen r"
  by (simp_all add: quotedStringPattern_def incompletePatterns_def escapedPatterns_def
      stringBody_def escapes_def minlen_Plus js_def)

lemma extractSerializedStackTrace_total: "extractSerializedStackTrace input \<noteq> None"
proof -
  have 1: "extractFromQuotedStrings input \<noteq> None"
    by (simp add: extractFromQuotedStrings_def execLoop_total minlen_patterns)
  have 2: "extractFromIncompleteJson input \<noteq> None"
    by (simp add: extractFromIncompleteJson_def patternsLoop_total minlen_patterns)
  have 3: "extractFromRawEscapedText input \<noteq> None"
    by (simp add: extractFromRawEscapedText_def patternsLoop_total minlen_patterns)
  from 1 2 3 show ?thesis
    by (auto simp: extractSerializedStackTrace_def split: option.splits)
qed

lemma extractStackTrace_total: "\<exists>extracted. extractStackTrace input = Some extracted"
proof -
  obtain r where r: "extractSerializedStackTrace input = Some r"
    using extractSerializedStackTrace_total [of input] by auto
  show ?thesis
  proof (cases "truthy r")
    case True
    then obtain s where "r = Some s" by (cases r) (auto simp: truthy_def)
    with r True show ?thesis by (simp add: extractStackTrace_def)
  next
    case False
    with r show ?thesis by (simp add: extractStackTrace_def)
  qed
qed

lemma formatAsHtml_nonempty: "formatAsHtml large p \<noteq> []"
  by (simp add: formatAsHtml_def noStackTraceHtml_def js_def)

lemma execLoop_no_match: "exec r input li = None \<Longrightarrow> execLoop r body input li = Some None"
  by (subst execLoop.simps) simp

lemma extractStackTrace_empty: "extractStackTrace [] = Some []"
proof -
  have q: "exec r [] 0 = None" if "0 < minlen r" for r
  proof (cases "exec r [] 0")
    case None
    then show ?thesis .
  next
    case (Some m)
    then show ?thesis using exec_bounds [OF that, of "[]" 0 "fst m" "fst (snd m)" "snd (snd m)"]
      by auto
  qed
  have l: "patternsLoop ps body [] = Some None" if "\<forall>r \<in> set ps. 0 < minlen r" for ps body
    using that by (induction ps) (simp_all add: execLoop_no_match q)
  have "extractSerializedStackTrace [] = Some None"
    by (simp add: extractSerializedStackTrace_def extractFromQuotedStrings_def
        extractFromIncompleteJson_def extractFromRawEscapedText_def execLoop_no_match q l
        minlen_patterns truthy_def)
  moreover have "lineLoop [[]] 0 False [] = []"
    by (simp add: lineLoop.simps isStackTraceLine_def trim_def)
  ultimately show ?thesis
    by (simp add: extractStackTrace_def truthy_def)
qed

text \<open>
  A match attempt of this theory has no bound on its depth, and every call returns.  For
  every input string \<open>x\<close>, \<open>extractStackTrace x\<close> returns a string, and the markup that
  \<open>formatAsHtml\<close> gives for the parse of that string is not empty; when the parse has
  \<open>hasStackTrace = false\<close>, the markup is the fixed placeholder.
\<close>

lemma pipeline_returns_markup:
  \<open>\<exists>extracted. extractStackTrace x = Some extracted
     \<and> formatAsHtml large (parseStackTrace extracted) \<noteq> []
     \<and> (\<not> hasStackTrace (parseStackTrace extracted) \<longrightarrow>
          formatAsHtml large (parseStackTrace extracted)
            = js ''<p class="no-stacktrace">No stack trace found</p>'')\<close>
  using extractStackTrace_total [of x]
  by (auto simp: formatAsHtml_nonempty) (simp add: formatAsHtml_def noStackTraceHtml_def)

section \<open>The forward walk\<close>

lemma forwardScan_last_index:
  "i \<le> startIndex + 2001 \<Longrightarrow> snd (forwardScan input startIndex i escapeCount inEscape) \<le> startIndex + 2001"
proof (induction input startIndex i escapeCount inEscape rule: forwardScan.induct)
  case (1 input startIndex i escapeCount inEscape)
  show ?case
    by (subst forwardScan.simps) (use 1 in \<open>auto simp: not_less\<close>)
qed

lemma forwardScanned_bound: "forwardScanned input startIndex \<le> 2002"
proof -
  have "snd (forwardScan input startIndex startIndex 0 False) \<le> startIndex + 2001"
    by (rule forwardScan_last_index) simp
  then show ?thesis by (simp add: forwardScanned_def)
qed

lemma forwardScan_plain:
  assumes "\<forall>k < length input. input ! k \<noteq> 0x5C \<and> input ! k \<noteq> 0x22 \<and> input ! k \<noteq> 0x20
      \<and> input ! k \<noteq> 0x9 \<and> input ! k \<noteq> 0xA"
    and "startIndex + 2001 < length input"
  shows "i \<le> startIndex + 2001 \<Longrightarrow> forwardScan input startIndex i 0 False = (startIndex, startIndex + 2001)"
proof (induction "startIndex + 2001 - i" arbitrary: i)
  case 0
  then have i: "i = startIndex + 2001" by simp
  with assms show ?case by (subst forwardScan.simps) simp
next
  case (Suc n)
  then have i: "i \<le> startIndex + 2000" "n = startIndex + 2001 - Suc i" "Suc i \<le> startIndex + 2001"
    by simp_all
  from Suc.hyps(1) [OF i(2) i(3)] have "forwardScan input startIndex (Suc i) 0 False
      = (startIndex, startIndex + 2001)" .
  moreover from i assms have "i < length input" by simp
  ultimately show ?case using assms(1) i(1) by (subst forwardScan.simps) simp
qed

text \<open>
  Claim C6, as amended.  The forward walk of the raw-escaped-sequence expansion never goes
  beyond index \<open>startIndex + 2001\<close>, so it visits at most 2002 characters.  Outside an
  escape it also stops at a double quote once it has seen an escape, and at a space, tab or
  newline once it has seen two.  \<open>extractStackTrace\<close> returns on every input.  The bound of
  2000 characters that the claim states is exceeded on an input of 2500 letters, where the
  walk visits 2002 characters.
\<close>

theorem C6_forward_scan_bounded:
  "snd (forwardScan input startIndex startIndex 0 False) \<le> startIndex + 2001
   \<and> forwardScanned input startIndex \<le> 2002
   \<and> (i < length input \<and> input ! i = 0x22 \<and> 0 < escapeCount \<longrightarrow>
        forwardScan input startIndex i escapeCount False = (i, i))
   \<and> (i < length input \<and> (input ! i = 0x20 \<or> input ! i = 0x9 \<or> input ! i = 0xA)
        \<and> 2 \<le> escapeCount \<longrightarrow>
        forwardScan input startIndex i escapeCount False = (i, i))
   \<and> (\<exists>extracted. extractStackTrace input = Some extracted)"
proof -
  have q: "forwardScan input startIndex i escapeCount False = (i, i)"
    if "i < length input \<and> input ! i = 0x22 \<and> 0 < escapeCount"
    using that by (subst forwardScan.simps) simp
  have w: "forwardScan input startIndex i escapeCount False = (i, i)"
    if "i < length input \<and> (input ! i = 0x20 \<or> input ! i = 0x9 \<or> input ! i = 0xA)
        \<and> 2 \<le> escapeCount"
    using that by (subst forwardScan.simps) auto
  have b: "snd (forwardScan input startIndex startIndex 0 False) \<le> startIndex + 2001"
    by (rule forwardScan_last_index) simp
  show ?thesis
    using b forwardScanned_bound [of input startIndex] extractStackTrace_total [of input] q w
    by blast
qed

theorem C6_witness:
  "forwardScanned (replicate 2500 0x61) 0 \<le> 2002
   \<and> forwardScan [0x5C, 0x6E, 0x22] 0 2 1 False = (2, 2)
   \<and> forwardScan [0x5C, 0x6E, 0x5C, 0x74, 0x20] 0 4 2 False = (4, 4)
   \<and> extractStackTrace [] = Some []"
  using C6_forward_scan_bounded [of "replicate 2500 0x61" 0 2 1]
    C6_forward_scan_bounded [of "[0x5C, 0x6E, 0x22]" 0 2 1]
    C6_forward_scan_bounded [of "[0x5C, 0x6E, 0x5C, 0x74, 0x20]" 0 4 2]
    extractStackTrace_empty
  by simp

theorem C6_counterexample:
  "forwardScanned (replicate 2500 0x61) 0 = 2002"
proof -
  have "forwardScan (replicate 2500 0x61) 0 0 0 False = (0, 0 + 2001)"
    by (rule forwardScan_plain) simp_all
  then show ?thesis by (simp add: forwardScanned_def)
qed

section \<open>The line-run fallback\<close>

lemma foundMoreStackTrace_eq:
  "foundMoreStackTrace ls i = list_ex isStackTraceLine (take 2 (drop (Suc i) ls))"
proof -
  have "list_ex isStackTraceLine (take 2 (drop (Suc i) ls))
      \<longleftrightarrow> (\<exists>k < length (take 2 (drop (Suc i) ls)). isStackTraceLine (take 2 (drop (Suc i) ls) ! k))"
    unfolding list_ex_iff by (metis in_set_conv_nth)
  also have "\<dots> \<longleftrightarrow> (\<exists>k. k < 2 \<and> Suc i + k < length ls \<and> isStackTraceLine (ls ! (Suc i + k)))"
    by (auto simp: less_diff_conv add.commute)
  also have "\<dots> \<longleftrightarrow> (\<exists>j. Suc i \<le> j \<and> j < min (i + 3) (length ls) \<and> isStackTraceLine (ls ! j))"
  proof
    assume "\<exists>k. k < 2 \<and> Suc i + k < length ls \<and> isStackTraceLine (ls ! (Suc i + k))"
    then obtain k where "k < 2" "Suc i + k < length ls" "isStackTraceLine (ls ! (Suc i + k))" by blast
    then have "Suc i \<le> Suc i + k \<and> Suc i + k < min (i + 3) (length ls)
        \<and> isStackTraceLine (ls ! (Suc i + k))" by simp
    then show "\<exists>j. Suc i \<le> j \<and> j < min (i + 3) (length ls) \<and> isStackTraceLine (ls ! j)" by blast
  next
    assume "\<exists>j. Suc i \<le> j \<and> j < min (i + 3) (length ls) \<and> isStackTraceLine (ls ! j)"
    then obtain j where j: "Suc i \<le> j" "j < min (i + 3) (length ls)" "isStackTraceLine (ls ! j)" by blast
    then have "j - Suc i < 2 \<and> Suc i + (j - Suc i) < length ls
        \<and> isStackTraceLine (ls ! (Suc i + (j - Suc i)))" by auto
    then show "\<exists>k. k < 2 \<and> Suc i + k < length ls \<and> isStackTraceLine (ls ! (Suc i + k))" by blast
  qed
  also have "\<dots> \<longleftrightarrow> foundMoreStackTrace ls i"
    by (auto simp: foundMoreStackTrace_def list_ex_iff)
  finally show ?thesis by simp
qed

lemma lineLoop_in_run:
  "i \<le> length ls \<Longrightarrow> lineLoop ls i True acc = acc @ runFrom (drop i ls)"
proof (induction "length ls - i" arbitrary: i acc)
  case 0
  then show ?case by (subst lineLoop.simps) simp
next
  case (Suc n)
  then have i: "i < length ls" "n = length ls - Suc i" "Suc i \<le> length ls" by simp_all
  have d: "drop i ls = ls ! i # drop (Suc i) ls"
    using i(1) by (simp add: Cons_nth_drop_Suc)
  have ih: "lineLoop ls (Suc i) True acc' = acc' @ runFrom (drop (Suc i) ls)" for acc'
    using Suc.hyps(1) [OF i(2) i(3)] .
  show ?case
    by (subst lineLoop.simps) (simp add: i(1) d ih foundMoreStackTrace_eq)
qed

lemma lineLoop_before_run:
  "i \<le> length ls \<Longrightarrow> lineLoop ls i False acc = acc @ lineRun (drop i ls)"
proof (induction "length ls - i" arbitrary: i)
  case 0
  then show ?case by (subst lineLoop.simps) simp
next
  case (Suc n)
  then have i: "i < length ls" "n = length ls - Suc i" "Suc i \<le> length ls" by simp_all
  have d: "drop i ls = ls ! i # drop (Suc i) ls"
    using i(1) by (simp add: Cons_nth_drop_Suc)
  have ih: "lineLoop ls (Suc i) False acc = acc @ lineRun (drop (Suc i) ls)"
    using Suc.hyps(1) [OF i(2) i(3)] .
  show ?case
    by (subst lineLoop.simps) (simp add: i d ih lineLoop_in_run)
qed

lemma lineLoop_eq_lineRun: "lineLoop ls 0 False [] = lineRun ls"
  using lineLoop_before_run [of 0 ls "[]"] by simp

lemma ms_mustContain:
  "mustContain c r \<Longrightarrow> (s', e') \<in> set (ms r s e) \<Longrightarrow> c \<in> set s"
proof (induction r arbitrary: s e s' e')
  case (Lit l)
  then show ?case by (auto simp: in_ms_Lit)
next
  case (Seq a b)
  from Seq.prems(2) obtain s1 e1 where 1: "(s1, e1) \<in> set (ms a s e)" and 2: "(s', e') \<in> set (ms b s1 e1)"
    unfolding in_ms_Seq by blast
  from ms_suffix [OF 1] obtain g where g: "s = g @ s1" by blast
  from Seq.prems(1) consider "mustContain c a" | "mustContain c b" by auto
  then show ?case
  proof cases
    case 1
    from Seq.IH(1) [OF this \<open>(s1, e1) \<in> set (ms a s e)\<close>] show ?thesis .
  next
    case 2
    from Seq.IH(2) [OF this \<open>(s', e') \<in> set (ms b s1 e1)\<close>] g show ?thesis by simp
  qed
next
  case (Alt a b)
  then show ?case by (auto simp: in_ms_Alt)
next
  case (Grp n r)
  then show ?case by (auto simp: in_ms_Grp)
qed simp_all

lemma search_mustContain:
  "mustContain c r \<Longrightarrow> c \<notin> set s \<Longrightarrow> search r i s = None"
proof (induction s arbitrary: i)
  case Nil
  show ?case
  proof (cases "ms r [] []")
    case Nil
    then show ?thesis by simp
  next
    case (Cons p ps)
    then have "(fst p, snd p) \<in> set (ms r [] [])" by simp
    from ms_mustContain [OF Nil.prems(1) this] show ?thesis by simp
  qed
next
  case (Cons x xs)
  show ?case
  proof (cases "ms r (x # xs) []")
    case Nil
    with Cons show ?thesis by simp
  next
    case (Cons p ps)
    then have "(fst p, snd p) \<in> set (ms r (x # xs) [])" by simp
    from ms_mustContain [OF Cons.prems(1) this] Cons.prems(2) show ?thesis by simp
  qed
qed

lemma exec_mustContain:
  "mustContain c r \<Longrightarrow> c \<notin> set input \<Longrightarrow> exec r input li = None"
  by (auto simp: exec_def intro!: search_mustContain dest: in_set_dropD)

lemma patternsLoop_mustContain:
  "\<forall>r \<in> set ps. mustContain c r \<Longrightarrow> c \<notin> set input \<Longrightarrow> patternsLoop ps body input = Some None"
proof (induction ps)
  case Nil
  show ?case by simp
next
  case (Cons p ps)
  then have "exec p input 0 = None" by (intro exec_mustContain [of c]) auto
  then have "execLoop p body input 0 = Some None" by (rule execLoop_no_match)
  with Cons show ?case by simp
qed

lemma mustContain_Plus: "mustContain c (Plus r) = mustContain c r"
  by (simp add: Plus_def)

lemma mustContain_patterns:
  "mustContain 0x22 quotedStringPattern"
  "\<forall>r \<in> set incompletePatterns. mustContain 0x22 r"
  "\<forall>r \<in> set escapedPatterns. mustContain 0x5C r"
  by (simp_all add: quotedStringPattern_def incompletePatterns_def escapedPatterns_def
      mustContain_Plus)

lemma extractSerializedStackTrace_plain:
  assumes "0x22 \<notin> set input" "0x5C \<notin> set input"
  shows "extractSerializedStackTrace input = Some None"
proof -
  have 1: "extractFromQuotedStrings input = Some None"
    by (simp add: extractFromQuotedStrings_def execLoop_no_match
        exec_mustContain [OF mustContain_patterns(1) assms(1)])
  have 2: "extractFromIncompleteJson input = Some None"
    by (simp add: extractFromIncompleteJson_def
        patternsLoop_mustContain [OF mustContain_patterns(2) assms(1)])
  have 3: "extractFromRawEscapedText input = Some None"
    by (simp add: extractFromRawEscapedText_def
        patternsLoop_mustContain [OF mustContain_patterns(3) assms(2)])
  show ?thesis
    by (simp add: extractSerializedStackTrace_def 1 2 3 truthy_def)
qed

text \<open>
  Claim C5.  The line-by-line loop of \<open>extractStackTrace\<close> computes the run of the
  specification: it starts at the first trace-like line; within the run trace-like lines and
  blank lines are kept, and a line that is neither is kept when a trace-like line is among
  the next two lines and ends the run otherwise.  When the serialized strategies give
  nothing, which is the case for every input without a double quote and without a backslash,
  \<open>extractStackTrace\<close> returns the lines of the run joined with single newlines; the run is empty
  exactly when no line is trace-like, and the result is then the empty string.
\<close>

theorem C5_line_run_fallback:
  "lineLoop ls 0 False [] = lineRun ls
   \<and> (extractSerializedStackTrace input = Some r \<and> \<not> truthy r \<longrightarrow>
        extractStackTrace input = Some (joinNl (lineRun (splitLines input))))
   \<and> (0x22 \<notin> set input \<and> 0x5C \<notin> set input \<longrightarrow>
        extractStackTrace input = Some (joinNl (lineRun (splitLines input))))
   \<and> (lineRun ls = [] \<longleftrightarrow> (\<forall>l \<in> set ls. \<not> isStackTraceLine l))
   \<and> joinNl [] = []"
proof -
  have a: "lineRun ls = [] \<longleftrightarrow> (\<forall>l \<in> set ls. \<not> isStackTraceLine l)"
    by (induction ls) auto
  have b: "extractStackTrace input = Some (joinNl (lineRun (splitLines input)))"
    if "0x22 \<notin> set input" "0x5C \<notin> set input"
    using extractSerializedStackTrace_plain [OF that]
    by (simp add: extractStackTrace_def truthy_def lineLoop_eq_lineRun)
  show ?thesis
    using b by (simp add: lineLoop_eq_lineRun a extractStackTrace_def)
qed

theorem C5_witness:
  "extractStackTrace
     (js ''log'' @ 0xA # js ''at a.b(c)'' @ 0xA # js ''y'' @ 0xA # js ''at a.b(c)'' @ 0xA # js ''z'')
   = Some (js ''at a.b(c)'' @ 0xA # js ''y'' @ 0xA # js ''at a.b(c)'')"
proof -
  have "lineRun (splitLines
      (js ''log'' @ 0xA # js ''at a.b(c)'' @ 0xA # js ''y'' @ 0xA # js ''at a.b(c)'' @ 0xA # js ''z''))
     = [js ''at a.b(c)'', js ''y'', js ''at a.b(c)'']"
    by (simp add: char_defs re_defs parse_defs)
  moreover have "0x22 \<notin> set
      (js ''log'' @ 0xA # js ''at a.b(c)'' @ 0xA # js ''y'' @ 0xA # js ''at a.b(c)'' @ 0xA # js ''z'')"
    "0x5C \<notin> set
      (js ''log'' @ 0xA # js ''at a.b(c)'' @ 0xA # js ''y'' @ 0xA # js ''at a.b(c)'' @ 0xA # js ''z'')"
    by (simp_all add: js_def)
  ultimately show ?thesis
    using C5_line_run_fallback [of "[]"
      "js ''log'' @ 0xA # js ''at a.b(c)'' @ 0xA # js ''y'' @ 0xA # js ''at a.b(c)'' @ 0xA # js ''z''"
      None]
    by simp
qed

section \<open>The block test\<close>

lemma patternLoop_eq:
  "patternLoop ls (n, he, ha) =
     (n + length (filter isStackTraceLine ls),
      he \<or> (\<exists>l \<in> set ls. isStackTraceLine l \<and> exceptionMarked l),
      ha \<or> (\<exists>l \<in> set ls. isStackTraceLine l \<and> frameMarked l))"
  by (induction ls arbitrary: n he ha)
    (auto simp: Let_def exceptionMarked_def frameMarked_def)

lemma containsStackTracePatterns_iff:
  "containsStackTracePatterns c \<longleftrightarrow>
     length (filter isStackTraceLine (splitLines c)) \<ge> 2
     \<or> ((\<exists>l \<in> set (splitLines c). isStackTraceLine l \<and> exceptionMarked l)
        \<and> (\<exists>l \<in> set (splitLines c). isStackTraceLine l \<and> frameMarked l))"
  by (auto simp: containsStackTracePatterns_def patternLoop_eq)

lemma unescape_plain: "0x5C \<notin> set s \<Longrightarrow> unescapeJsonString s = s"
proof -
  have 1: "0x5C \<notin> set s \<Longrightarrow> replaceEscape c r s = s" for c r s
    by (induction c r s rule: replaceEscape.induct) auto
  have 2: "0x5C \<notin> set s \<Longrightarrow> replaceUnicode s = s" for s
    by (induction s rule: replaceUnicode.induct) auto
  have 3: "0x5C \<notin> set s \<Longrightarrow> replaceHex s = s" for s
    by (induction s rule: replaceHex.induct) auto
  assume "0x5C \<notin> set s"
  then show ?thesis by (simp add: unescapeJsonString_def 1 2 3)
qed

text \<open>
  Claim C4, at the input on which the source departs from it.  The text \<open>at a.b(Error:1)\<close>
  has one line; it is trace-like, it matches the frame pattern and not the exception
  pattern.  \<open>containsStackTracePatterns\<close> accepts the text all the same, since the search
  for \<open>Exception\<close> or \<open>Error\<close> before a colon succeeds inside the location of the frame;
  \<open>extractStackTrace\<close> returns the text when it is given in double quotes.
\<close>

theorem C4_single_frame_accepted:
  "containsStackTracePatterns (js ''at a.b(Error:1)'')
   \<and> filter isStackTraceLine (splitLines (js ''at a.b(Error:1)'')) = [js ''at a.b(Error:1)'']
   \<and> \<not> reTest exception_re (js ''at a.b(Error:1)'')
   \<and> reTest at_re (js ''at a.b(Error:1)'')
   \<and> extractStackTrace (0x22 # js ''at a.b(Error:1)'' @ [0x22]) = Some (js ''at a.b(Error:1)'')"
proof -
  have l: "splitLines (js ''at a.b(Error:1)'') = [js ''at a.b(Error:1)'']"
    by (simp add: js_def)
  have e: "\<not> reTest exception_re (js ''at a.b(Error:1)'')"
    by (simp add: char_defs re_defs)
  have a: "reTest at_re (js ''at a.b(Error:1)'')"
    by (simp add: char_defs re_defs)
  have t: "trim (js ''at a.b(Error:1)'') = js ''at a.b(Error:1)''"
    by (simp add: trim_def char_defs)
  have i: "isStackTraceLine (js ''at a.b(Error:1)'')"
    using a t by (simp add: isStackTraceLine_def STACK_TRACE_PATTERNS_def js_def)
  have em: "exceptionMarked (js ''at a.b(Error:1)'')"
    unfolding exceptionMarked_def t
    by (simp add: reFind_def exceptionMark_re_def char_defs re_defs)
  have fm: "frameMarked (js ''at a.b(Error:1)'')"
    unfolding frameMarked_def t
    by (simp add: atMark_re_def char_defs re_defs)
  have c: "containsStackTracePatterns (js ''at a.b(Error:1)'')"
    unfolding containsStackTracePatterns_iff l using i em fm by simp
  have m: "exec quotedStringPattern (0x22 # js ''at a.b(Error:1)'' @ [0x22]) 0
      = Some (0, 17, [(1, js ''at a.b(Error:1)'')])"
    by (simp add: exec_def quotedStringPattern_def stringBody_def escapes_def not_quote_bs_def
        char_defs re_defs)
  have u: "unescapeJsonString (js ''at a.b(Error:1)'') = js ''at a.b(Error:1)''"
    by (rule unescape_plain) (simp add: js_def)
  have "extractFromQuotedStrings (0x22 # js ''at a.b(Error:1)'' @ [0x22])
      = Some (Some (js ''at a.b(Error:1)''))"
    unfolding extractFromQuotedStrings_def
    by (subst execLoop.simps) (simp add: m quotedBody_def grp_simps u c)
  then have "extractStackTrace (0x22 # js ''at a.b(Error:1)'' @ [0x22]) = Some (js ''at a.b(Error:1)'')"
    by (simp add: extractStackTrace_def extractSerializedStackTrace_def truthy_def js_def)
  with c l i e a show ?thesis by simp
qed

section \<open>Quoted strings and unescaping\<close>





































section \<open>An unterminated quoted string\<close>


















end
